theory Spec2Isabelle
  imports Complex_Main "HOL-Library.Sublist"
begin

section \<open>Values held by the column store\<close>

text \<open>
  A slot of a chunk holds a JavaScript number. Finite doubles are read as the reals they
  denote (comparisons of doubles are exact); the two infinities and NaN are separate
  values. \<open>Undefined\<close> is what JavaScript yields when an array is read past its end.
  String values (ordinal dimensions that have no category table) are not modelled.
\<close>

datatype pvalue = Undefined | NaN | NegInf | Fin real | PosInf

text \<open>The global \<open>isNaN\<close>: \<open>ToNumber(undefined)\<close> is NaN.\<close>

fun isNaN :: "pvalue \<Rightarrow> bool" where
  "isNaN Undefined = True"
| "isNaN NaN = True"
| "isNaN _ = False"

text \<open>The relational operators \<open><\<close>, \<open>>\<close>, \<open><=\<close>, \<open>>=\<close> on numbers: every
  comparison with NaN (or undefined) is false.\<close>

fun js_lt :: "pvalue \<Rightarrow> pvalue \<Rightarrow> bool" where
  "js_lt NegInf (Fin b) = True"
| "js_lt NegInf PosInf = True"
| "js_lt (Fin a) (Fin b) = (a < b)"
| "js_lt (Fin a) PosInf = True"
| "js_lt _ _ = False"

definition js_gt :: "pvalue \<Rightarrow> pvalue \<Rightarrow> bool" where
  "js_gt a b = js_lt b a"

definition js_le :: "pvalue \<Rightarrow> pvalue \<Rightarrow> bool" where
  "js_le a b = (js_lt a b \<or> (a = b \<and> \<not> isNaN a))"

definition js_ge :: "pvalue \<Rightarrow> pvalue \<Rightarrow> bool" where
  "js_ge a b = js_le b a"

text \<open>Exact addition of numbers, used where a concrete \<open>+\<close> is needed in examples
  (rounding of doubles is not part of it).\<close>

fun js_add :: "pvalue \<Rightarrow> pvalue \<Rightarrow> pvalue" where
  "js_add (Fin a) (Fin b) = Fin (a + b)"
| "js_add PosInf NegInf = NaN"
| "js_add NegInf PosInf = NaN"
| "js_add PosInf (Fin b) = PosInf"
| "js_add (Fin a) PosInf = PosInf"
| "js_add PosInf PosInf = PosInf"
| "js_add NegInf (Fin b) = NegInf"
| "js_add (Fin a) NegInf = NegInf"
| "js_add NegInf NegInf = NegInf"
| "js_add _ _ = NaN"

datatype error = TypeError

section \<open>The List container\<close>

text \<open>
  \<open>getRawIndex\<close> is a method slot of the instance that is rebound between two
  functions; the slot holds one of two tags.
\<close>

datatype raw_index_fn = getRawIndexWithoutIndices | getRawIndexWithIndices

text \<open>
  The fields of \<open>List\<close> that the data operations read and write. A field \<open>_x\<close> of
  the source is the field \<open>x\<close> here; \<open>getRawIndexFn\<close> is the method slot
  \<open>getRawIndex\<close>; \<open>ordinalCategories\<close> gives, for a dimension whose info has an
  \<open>ordinalMeta\<close>, its \<open>categories\<close>. The [min, max] arrays of \<open>_rawExtent\<close> and
  \<open>_extent\<close> are objects that callers may hold and mutate, so they live in \<open>heap\<close>
  (an address is an index into it) and the two maps hold addresses.
  \<open>indices\<close> is \<open>None\<close> for null; typed index arrays hold naturals.
\<close>

text \<open>
  A name or an id is typed \<open>string\<close> in the source but may be a number read from a
  chunk (a name dimension or id dimension that has no category table).
\<close>

datatype id_value = IdStr string | IdNum pvalue

text \<open>
  A slot of the name counter \<open>_nameRepeatCount\<close>, a plain object: a count, the NaN an
  increment of a non-number leaves, or a property inherited from \<open>Object.prototype\<close>.
\<close>

datatype counter_slot = Count nat | CountNaN | Inherited

record data_list =
  dimensions :: "string list"
  ordinalCategories :: "string \<rightharpoonup> string list"
  indices :: "nat list option"
  count :: nat
  rawCount :: nat
  storage :: "string \<rightharpoonup> pvalue list list"
  nameList :: "nat \<rightharpoonup> id_value"
  idList :: "nat \<rightharpoonup> id_value"
  chunkSize :: nat
  chunkCount :: nat
  rawExtent :: "string \<rightharpoonup> nat"
  extent :: "string \<rightharpoonup> nat"
  nameDimIdx :: "nat option"
  idDimIdx :: "nat option"
  getRawIndexFn :: raw_index_fn
  nameRepeatCount :: "string \<rightharpoonup> counter_slot"
  heap :: "(pvalue \<times> pvalue) list"

text \<open>Reading an array at an index: \<open>None\<close> is JavaScript's undefined.\<close>

definition array_read :: "'a list \<Rightarrow> nat \<Rightarrow> 'a option" where
  "array_read xs i = (if i < length xs then Some (xs ! i) else None)"

text \<open>Reading a slot of a chunk: past the end the value is undefined.\<close>

definition chunk_read :: "pvalue list \<Rightarrow> nat \<Rightarrow> pvalue" where
  "chunk_read chunk i = (if i < length chunk then chunk ! i else Undefined)"

text \<open>
  \<open>getRawIndexWithoutIndices\<close> returns its argument; \<open>getRawIndexWithIndices\<close>
  reads \<open>this._indices[idx]\<close> for \<open>0 \<le> idx < _count\<close> and returns \<open>-1\<close> otherwise.
  The result \<open>None\<close> is undefined (a read past the end of the index array); reading a
  null \<open>_indices\<close> throws.
\<close>

definition getRawIndex :: "data_list \<Rightarrow> int \<Rightarrow> error + int option" where
  "getRawIndex st idx =
     (case getRawIndexFn st of
        getRawIndexWithoutIndices \<Rightarrow> Inr (Some idx)
      | getRawIndexWithIndices \<Rightarrow>
          (if idx < int (count st) \<and> idx \<ge> 0 then
             (case indices st of
                None \<Rightarrow> Inl TypeError
              | Some ind \<Rightarrow> Inr (map_option int (array_read ind (nat idx))))
           else Inr (Some (- 1))))"

text \<open>
  The three lines shared by \<open>get\<close>, \<open>getByRawIndex\<close> and \<open>_getFast\<close>:
  \<open>chunkIndex = Math.floor(rawIdx / chunkSize)\<close>, \<open>chunkOffset = rawIdx % chunkSize\<close>,
  \<open>dimStore[chunkIndex][chunkOffset]\<close>. When \<open>dimStore[chunkIndex]\<close> is undefined (the
  raw index is undefined or negative, the chunk size is 0, or there is no such chunk)
  the second subscript throws.
\<close>

definition read_chunked :: "nat \<Rightarrow> pvalue list list \<Rightarrow> int option \<Rightarrow> error + pvalue" where
  "read_chunked cs dimStore rawIdx =
     (case rawIdx of
        None \<Rightarrow> Inl TypeError
      | Some r \<Rightarrow>
          (if r < 0 \<or> cs = 0 then Inl TypeError
           else (case array_read dimStore (nat r div cs) of
                   None \<Rightarrow> Inl TypeError
                 | Some chunkStore \<Rightarrow> Inr (chunk_read chunkStore (nat r mod cs)))))"

text \<open>
  \<open>_storage\<close>, \<open>_rawExtent\<close>, \<open>_extent\<close> and \<open>_nameRepeatCount\<close> are plain objects
  (\<open>{}\<close>), so a lookup by name also finds what \<open>Object.prototype\<close> provides. The
  record's maps hold the own properties; these are the names of the inherited ones.
\<close>

definition inherited_keys :: "string list" where
  "inherited_keys =
     [''constructor'', ''hasOwnProperty'', ''isPrototypeOf'', ''propertyIsEnumerable'',
      ''toLocaleString'', ''toString'', ''valueOf'', ''__defineGetter__'',
      ''__defineSetter__'', ''__lookupGetter__'', ''__lookupSetter__'']"

definition proto_keys :: "string list" where
  "proto_keys = ''__proto__'' # inherited_keys"

text \<open>
  \<open>this._storage[dim]\<close>: the chunks of the dimension when it has storage; \<open>None\<close>
  (undefined) for any other name, except that for a name of \<open>Object.prototype\<close> the
  lookup yields the inherited function or object. That value is truthy and has no
  numeric property, so every \<open>[chunkIndex]\<close> of it is undefined: it reads as a store
  without chunks. The prototype of these objects is \<open>Object.prototype\<close> throughout
  (an assignment under the key \<open>__proto__\<close> would replace it; the maps of the record
  hold no such entry).
\<close>

definition dim_store :: "data_list \<Rightarrow> string \<Rightarrow> pvalue list list option" where
  "dim_store st dimName =
     (case storage st dimName of
        Some dimStore \<Rightarrow> Some dimStore
      | None \<Rightarrow> (if dimName \<in> set proto_keys then Some [] else None))"

definition get :: "data_list \<Rightarrow> string \<Rightarrow> int \<Rightarrow> error + pvalue" where
  "get st dimName idx =
     (if \<not> (idx \<ge> 0 \<and> idx < int (count st)) then Inr NaN
      else (case dim_store st dimName of
              None \<Rightarrow> Inr NaN
            | Some dimStore \<Rightarrow>
                (case getRawIndex st idx of
                   Inl e \<Rightarrow> Inl e
                 | Inr rawIdx \<Rightarrow> read_chunked (chunkSize st) dimStore rawIdx)))"

definition getByRawIndex :: "data_list \<Rightarrow> string \<Rightarrow> int \<Rightarrow> error + pvalue" where
  "getByRawIndex st dimName rawIdx =
     (if \<not> (rawIdx \<ge> 0 \<and> rawIdx < int (rawCount st)) then Inr NaN
      else (case dim_store st dimName of
              None \<Rightarrow> Inr NaN
            | Some dimStore \<Rightarrow> read_chunked (chunkSize st) dimStore (Some rawIdx)))"

text \<open>\<open>_getFast\<close>: no range check; a name without any \<open>_storage\<close> entry throws.\<close>

definition getFast :: "data_list \<Rightarrow> string \<Rightarrow> int option \<Rightarrow> error + pvalue" where
  "getFast st dimName rawIdx =
     (case dim_store st dimName of
        None \<Rightarrow> Inl TypeError
      | Some dimStore \<Rightarrow> read_chunked (chunkSize st) dimStore rawIdx)"

subsection \<open>getSum\<close>

text \<open>
  The loop of \<open>getSum\<close> over the logical positions still to visit. The addition of
  doubles is the parameter \<open>add\<close>.
\<close>

fun getSum_loop ::
  "(pvalue \<Rightarrow> pvalue \<Rightarrow> pvalue) \<Rightarrow> data_list \<Rightarrow> string \<Rightarrow> nat list \<Rightarrow> pvalue \<Rightarrow> error + pvalue"
where
  "getSum_loop add st dimName [] acc = Inr acc"
| "getSum_loop add st dimName (i # is) acc =
     (case get st dimName (int i) of
        Inl e \<Rightarrow> Inl e
      | Inr v \<Rightarrow> getSum_loop add st dimName is (if \<not> isNaN v then add acc v else acc))"

definition getSum :: "(pvalue \<Rightarrow> pvalue \<Rightarrow> pvalue) \<Rightarrow> data_list \<Rightarrow> string \<Rightarrow> error + pvalue" where
  "getSum add st dimName =
     (case dim_store st dimName of
        None \<Rightarrow> Inr (Fin 0)
      | Some dimData \<Rightarrow> getSum_loop add st dimName [0..<count st] (Fin 0))"

subsection \<open>filterSelf\<close>

text \<open>
  \<open>getIndicesCtor\<close> picks \<open>Uint32Array\<close> when \<open>_rawCount > 65535\<close> and
  \<open>Uint16Array\<close> otherwise; the element width in bits stands for the constructor.
  A store into such an array converts the number to an unsigned integer of that width
  (undefined becomes 0); a store past the end of the array is ignored, as
  \<open>xs[i := v]\<close> is.
\<close>

definition getIndicesCtor :: "data_list \<Rightarrow> nat" where
  "getIndicesCtor st = (if rawCount st > 65535 then 32 else 16)"

definition typed_store :: "nat \<Rightarrow> int option \<Rightarrow> nat" where
  "typed_store bits v = (case v of None \<Rightarrow> 0 | Some x \<Rightarrow> nat (x mod 2 ^ bits))"

text \<open>
  The loop of \<open>filterSelf\<close> and the two loops of the generic path of
  \<open>selectRange\<close> have one shape: for each logical position \<open>i\<close>,
  \<open>rawIdx = this.getRawIndex(i)\<close>, a decision computed from \<open>i\<close> and \<open>rawIdx\<close>, and
  \<open>newIndices[offset++] = rawIdx\<close> when it holds. The decision is the parameter
  \<open>keep\<close>; the state of the loop is \<open>(newIndices, offset)\<close>.
\<close>

fun rows_loop ::
  "data_list \<Rightarrow> (nat \<Rightarrow> int option \<Rightarrow> error + bool) \<Rightarrow> nat list \<Rightarrow> nat list \<times> nat
     \<Rightarrow> error + nat list \<times> nat"
where
  "rows_loop st keep [] s = Inr s"
| "rows_loop st keep (i # is) (newIndices, offset) =
     (case getRawIndex st (int i) of
        Inl e \<Rightarrow> Inl e
      | Inr rawIdx \<Rightarrow>
          (case keep i rawIdx of
             Inl e \<Rightarrow> Inl e
           | Inr k \<Rightarrow>
               rows_loop st keep is
                 (if k then (newIndices[offset := typed_store (getIndicesCtor st) rawIdx], Suc offset)
                  else (newIndices, offset))))"

text \<open>
  The \<open>value\<close> array of the branch for two or more dimensions:
  \<open>for (; k < dimSize; k++) value[k] = this._getFast(dim0, rawIdx)\<close>.
\<close>

fun filterSelf_value :: "data_list \<Rightarrow> string \<Rightarrow> int option \<Rightarrow> nat list \<Rightarrow> error + pvalue list" where
  "filterSelf_value st dim0 rawIdx [] = Inr []"
| "filterSelf_value st dim0 rawIdx (k # ks) =
     (case getFast st dim0 rawIdx of
        Inl e \<Rightarrow> Inl e
      | Inr v \<Rightarrow>
          (case filterSelf_value st dim0 rawIdx ks of
             Inl e \<Rightarrow> Inl e
           | Inr vs \<Rightarrow> Inr (v # vs)))"

text \<open>
  The values the callback receives before the logical index, for the row at \<open>rawIdx\<close>:
  none for no dimension, \<open>val\<close> for one, the \<open>value\<close> array otherwise.
\<close>

definition filterSelf_args :: "data_list \<Rightarrow> string list \<Rightarrow> int option \<Rightarrow> error + pvalue list" where
  "filterSelf_args st dimNames rawIdx =
     (if length dimNames = 0 then Inr []
      else if length dimNames = 1 then
        (case getFast st (dimNames ! 0) rawIdx of
           Inl e \<Rightarrow> Inl e
         | Inr val \<Rightarrow> Inr [val])
      else filterSelf_value st (dimNames ! 0) rawIdx [0..<length dimNames])"

definition filterSelf_keep ::
  "data_list \<Rightarrow> string list \<Rightarrow> (pvalue list \<Rightarrow> nat \<Rightarrow> bool) \<Rightarrow> nat \<Rightarrow> int option \<Rightarrow> error + bool"
where
  "filterSelf_keep st dimNames cb i rawIdx =
     (case filterSelf_args st dimNames rawIdx of
        Inl e \<Rightarrow> Inl e
      | Inr vs \<Rightarrow> Inr (cb vs i))"

text \<open>
  The tail shared by \<open>filterSelf\<close> and \<open>selectRange\<close>: install the new index array
  when a row was dropped, set \<open>_count\<close>, reset \<open>_extent\<close>, rebind \<open>getRawIndex\<close>.
\<close>

definition set_indices :: "data_list \<Rightarrow> nat \<Rightarrow> nat list \<Rightarrow> nat \<Rightarrow> data_list" where
  "set_indices st originalCount newIndices offset =
     (let st1 = (if offset < originalCount then st\<lparr>indices := Some newIndices\<rparr> else st);
          st2 = st1\<lparr>count := offset, extent := Map.empty\<rparr>
      in st2\<lparr>getRawIndexFn :=
               (if indices st2 \<noteq> None then getRawIndexWithIndices else getRawIndexWithoutIndices)\<rparr>)"

text \<open>
  \<open>filterSelf(dims, cb)\<close>: \<open>dimNames\<close> are the concrete dimension names (empty for
  the form that passes only a callback); \<open>cb\<close> takes the values and the logical index.
\<close>

definition filterSelf ::
  "data_list \<Rightarrow> string list \<Rightarrow> (pvalue list \<Rightarrow> nat \<Rightarrow> bool) \<Rightarrow> error + data_list"
where
  "filterSelf st dimNames cb =
     (if count st = 0 then Inr st
      else
        (case rows_loop st (filterSelf_keep st dimNames cb) [0..<count st]
                (replicate (count st) 0, 0) of
           Inl e \<Rightarrow> Inl e
         | Inr (newIndices, offset) \<Rightarrow> Inr (set_indices st (count st) newIndices offset)))"

subsection \<open>selectRange\<close>

text \<open>\<open>(val >= min && val <= max) || isNaN(val)\<close>\<close>

definition in_range :: "pvalue \<Rightarrow> pvalue \<Rightarrow> pvalue \<Rightarrow> bool" where
  "in_range val lo hi = ((js_ge val lo \<and> js_le val hi) \<or> isNaN val)"

text \<open>
  The inner loop of the fast path over the slots \<open>i\<close> of one chunk; the state is
  \<open>(newIndices, offset, idx)\<close>.
\<close>

fun fast_inner ::
  "(nat \<Rightarrow> error + bool) \<Rightarrow> nat \<Rightarrow> nat list \<Rightarrow> nat list \<times> nat \<times> nat
     \<Rightarrow> error + nat list \<times> nat \<times> nat"
where
  "fast_inner keep bits [] s = Inr s"
| "fast_inner keep bits (i # is) (newIndices, offset, idx) =
     (case keep i of
        Inl e \<Rightarrow> Inl e
      | Inr k \<Rightarrow>
          fast_inner keep bits is
            (if k then (newIndices[offset := typed_store bits (Some (int idx))], Suc offset, Suc idx)
             else (newIndices, offset, Suc idx)))"

text \<open>\<open>Math.min(this._count - k * this._chunkSize, this._chunkSize)\<close>\<close>

definition chunk_len :: "data_list \<Rightarrow> nat \<Rightarrow> int" where
  "chunk_len st k = min (int (count st) - int k * int (chunkSize st)) (int (chunkSize st))"

text \<open>
  The fast path for one dimension, over the chunk numbers \<open>k\<close> still to visit.
  \<open>dimStorage[k]\<close> throws when the dimension has no storage; \<open>chunkStorage[i]\<close>
  throws when there is no chunk \<open>k\<close>.
\<close>

fun selectRange_fast1 ::
  "data_list \<Rightarrow> pvalue list list option \<Rightarrow> pvalue \<Rightarrow> pvalue \<Rightarrow> nat list \<Rightarrow> nat list \<times> nat \<times> nat
     \<Rightarrow> error + nat list \<times> nat \<times> nat"
where
  "selectRange_fast1 st dimStorage lo hi [] s = Inr s"
| "selectRange_fast1 st dimStorage lo hi (k # ks) s =
     (case dimStorage of
        None \<Rightarrow> Inl TypeError
      | Some chunks \<Rightarrow>
          (case fast_inner
                  (\<lambda>i. case array_read chunks k of
                         None \<Rightarrow> Inl TypeError
                       | Some chunkStorage \<Rightarrow> Inr (in_range (chunk_read chunkStorage i) lo hi))
                  (getIndicesCtor st) [0..<nat (chunk_len st k)] s of
             Inl e \<Rightarrow> Inl e
           | Inr s' \<Rightarrow> selectRange_fast1 st dimStorage lo hi ks s'))"

text \<open>The fast path for two dimensions.\<close>

fun selectRange_fast2 ::
  "data_list \<Rightarrow> pvalue list list option \<Rightarrow> pvalue list list option
     \<Rightarrow> pvalue \<Rightarrow> pvalue \<Rightarrow> pvalue \<Rightarrow> pvalue \<Rightarrow> nat list \<Rightarrow> nat list \<times> nat \<times> nat
     \<Rightarrow> error + nat list \<times> nat \<times> nat"
where
  "selectRange_fast2 st dimStorage dimStorage2 lo hi lo2 hi2 [] s = Inr s"
| "selectRange_fast2 st dimStorage dimStorage2 lo hi lo2 hi2 (k # ks) s =
     (case dimStorage of
        None \<Rightarrow> Inl TypeError
      | Some chunks \<Rightarrow>
          (case dimStorage2 of
             None \<Rightarrow> Inl TypeError
           | Some chunks2 \<Rightarrow>
               (case fast_inner
                       (\<lambda>i. case array_read chunks k of
                              None \<Rightarrow> Inl TypeError
                            | Some chunkStorage \<Rightarrow>
                                (case array_read chunks2 k of
                                   None \<Rightarrow> Inl TypeError
                                 | Some chunkStorage2 \<Rightarrow>
                                     Inr (in_range (chunk_read chunkStorage i) lo hi
                                          \<and> in_range (chunk_read chunkStorage2 i) lo2 hi2)))
                       (getIndicesCtor st) [0..<nat (chunk_len st k)] s of
                  Inl e \<Rightarrow> Inl e
                | Inr s' \<Rightarrow> selectRange_fast2 st dimStorage dimStorage2 lo hi lo2 hi2 ks s')))"

text \<open>The decision of the generic loop for one dimension.\<close>

definition selectRange_keep1 ::
  "data_list \<Rightarrow> string \<Rightarrow> pvalue \<Rightarrow> pvalue \<Rightarrow> nat \<Rightarrow> int option \<Rightarrow> error + bool"
where
  "selectRange_keep1 st dim0 lo hi i rawIndex =
     (case getFast st dim0 rawIndex of
        Inl e \<Rightarrow> Inl e
      | Inr val \<Rightarrow> Inr (in_range val lo hi))"

text \<open>
  The decision of the generic loop for several dimensions: every dimension is read,
  \<open>keep\<close> becomes false when \<open>val < range[dimk][0] || val > range[dimk][1]\<close>.
\<close>

fun selectRange_keepN ::
  "data_list \<Rightarrow> (string \<times> pvalue \<times> pvalue) list \<Rightarrow> int option \<Rightarrow> bool \<Rightarrow> error + bool"
where
  "selectRange_keepN st [] rawIndex keep = Inr keep"
| "selectRange_keepN st ((dimk, lo, hi) # rest) rawIndex keep =
     (case getFast st dimk rawIndex of
        Inl e \<Rightarrow> Inl e
      | Inr val \<Rightarrow>
          selectRange_keepN st rest rawIndex (if js_lt val lo \<or> js_gt val hi then False else keep))"

text \<open>
  \<open>selectRange(range)\<close>: the own keys of \<open>range\<close> in enumeration order, each with its
  \<open>[min, max]\<close>. In the generic loop for several dimensions the stored value is a
  second \<open>this.getRawIndex(i)\<close>, equal to the first.
\<close>

definition selectRange :: "data_list \<Rightarrow> (string \<times> pvalue \<times> pvalue) list \<Rightarrow> error + data_list" where
  "selectRange st rng =
     (if count st = 0 then Inr st
      else if length rng = 0 then Inr st
      else
        (let originalCount = count st;
             newIndices = replicate originalCount 0;
             dim0 = fst (rng ! 0);
             lo = fst (snd (rng ! 0));
             hi = snd (snd (rng ! 0))
         in case
              (if indices st = None \<and> length rng = 1 then
                 (case selectRange_fast1 st (dim_store st dim0) lo hi [0..<chunkCount st]
                         (newIndices, 0, 0) of
                    Inl e \<Rightarrow> Inl e
                  | Inr (newIndices', offset, idx) \<Rightarrow> Inr (newIndices', offset))
               else if indices st = None \<and> length rng = 2 then
                 (case selectRange_fast2 st (dim_store st dim0) (dim_store st (fst (rng ! 1)))
                         lo hi (fst (snd (rng ! 1))) (snd (snd (rng ! 1))) [0..<chunkCount st]
                         (newIndices, 0, 0) of
                    Inl e \<Rightarrow> Inl e
                  | Inr (newIndices', offset, idx) \<Rightarrow> Inr (newIndices', offset))
               else if length rng = 1 then
                 rows_loop st (selectRange_keep1 st dim0 lo hi) [0..<originalCount] (newIndices, 0)
               else
                 rows_loop st (\<lambda>i rawIndex. selectRange_keepN st rng rawIndex True)
                   [0..<originalCount] (newIndices, 0))
            of
              Inl e \<Rightarrow> Inl e
            | Inr (newIndices', offset) \<Rightarrow> Inr (set_indices st originalCount newIndices' offset)))"

subsection \<open>indexOfRawIndex\<close>





subsection \<open>getDataExtent\<close>

definition getInitialExtent :: "pvalue \<times> pvalue" where
  "getInitialExtent = (PosInf, NegInf)"

text \<open>A new two-element array: its address and the grown heap.\<close>

definition new_pair :: "data_list \<Rightarrow> pvalue \<times> pvalue \<Rightarrow> nat \<times> data_list" where
  "new_pair st p = (length (heap st), st\<lparr>heap := heap st @ [p]\<rparr>)"

text \<open>A holder of the array at address \<open>a\<close> assigns to its elements.\<close>

definition write_pair :: "data_list \<Rightarrow> nat \<Rightarrow> pvalue \<times> pvalue \<Rightarrow> data_list" where
  "write_pair st a p = st\<lparr>heap := (heap st)[a := p]\<rparr>"

text \<open>The scan of \<open>getDataExtent\<close> over the logical positions still to visit.\<close>

fun extent_scan ::
  "data_list \<Rightarrow> string \<Rightarrow> nat list \<Rightarrow> pvalue \<times> pvalue \<Rightarrow> error + pvalue \<times> pvalue"
where
  "extent_scan st dimName [] (lo, hi) = Inr (lo, hi)"
| "extent_scan st dimName (i # is) (lo, hi) =
     (case getRawIndex st (int i) of
        Inl e \<Rightarrow> Inl e
      | Inr rawIdx \<Rightarrow>
          (case getFast st dimName rawIdx of
             Inl e \<Rightarrow> Inl e
           | Inr val \<Rightarrow>
               extent_scan st dimName is
                 (if js_lt val lo then val else lo, if js_gt val hi then val else hi)))"

text \<open>
  \<open>getDataExtent(dim)\<close> for a concrete dimension name (what \<open>getDimension\<close> resolves
  its argument to). The result is the address of the returned array and the new state.
  \<open>initialExtent\<close> is allocated first, as in the source (the scan starts from its two
  elements); \<open>slice()\<close> allocates a copy; the scanned \<open>[min, max]\<close> is a new array,
  stored in \<open>_extent\<close> and returned itself.
  A map entry holds the address of an allocated array, so the reads of the heap are in
  range in every state the operations produce; a dangling address reads as an error.
  For a name of \<open>Object.prototype\<close> that has no own entry, \<open>this._rawExtent[dim]\<close>
  and \<open>this._extent[dim]\<close> are the inherited value, which is truthy and has no
  \<open>slice\<close>: the call throws, as it does on undefined.
\<close>

definition getDataExtent :: "data_list \<Rightarrow> string \<Rightarrow> error + nat \<times> data_list" where
  "getDataExtent st dimName =
     (let (initialExtent, st0) = new_pair st getInitialExtent in
      case dim_store st0 dimName of
        None \<Rightarrow> Inr (initialExtent, st0)
      | Some dimData \<Rightarrow>
          (if indices st0 = None then
             (case rawExtent st0 dimName of
                None \<Rightarrow> Inl TypeError
              | Some a \<Rightarrow>
                  (case array_read (heap st0) a of
                     None \<Rightarrow> Inl TypeError
                   | Some p \<Rightarrow> Inr (new_pair st0 p)))
           else
             (case extent st0 dimName of
                Some a \<Rightarrow>
                  (case array_read (heap st0) a of
                     None \<Rightarrow> Inl TypeError
                   | Some p \<Rightarrow> Inr (new_pair st0 p))
              | None \<Rightarrow>
                  (if dimName \<in> set proto_keys then Inl TypeError
                   else
                     (case extent_scan st0 dimName [0..<count st0] getInitialExtent of
                        Inl e \<Rightarrow> Inl e
                      | Inr p \<Rightarrow>
                          (let (dimExtent, st1) = new_pair st0 p
                           in Inr (dimExtent,
                                   st1\<lparr>extent := (extent st1)(dimName \<mapsto> dimExtent)\<rparr>)))))))"

subsection \<open>getId\<close>

text \<open>Decimal digits of a natural number, and of an integer.\<close>

fun string_of_nat :: "nat \<Rightarrow> string" where
  "string_of_nat n =
     (if n < 10 then [char_of (48 + n)]
      else string_of_nat (n div 10) @ [char_of (48 + n mod 10)])"

definition string_of_int :: "int \<Rightarrow> string" where
  "string_of_int x = (if x < 0 then CHR ''-'' # string_of_nat (nat (- x)) else string_of_nat (nat x))"

text \<open>\<open>ID_PREFIX = 'e\0\0'\<close>\<close>

definition ID_PREFIX :: string where
  "ID_PREFIX = [CHR ''e'', CHR 0x00, CHR 0x00]"

text \<open>\<open>categories[val]\<close>: defined when \<open>val\<close> is an index of the array.\<close>

definition category_at :: "string list \<Rightarrow> pvalue \<Rightarrow> string option" where
  "category_at cats val =
     (case val of
        Fin x \<Rightarrow> (if 0 \<le> x \<and> x = of_int \<lfloor>x\<rfloor> then array_read cats (nat \<lfloor>x\<rfloor>) else None)
      | _ \<Rightarrow> None)"

text \<open>
  \<open>getRawValueFromStore(list, dimIndex, rawIndex)\<close>; \<open>None\<close> is undefined. A
  \<open>dimIndex\<close> past the end of \<open>dimensions\<close> reads undefined, which as a property
  key is the name \<open>undefined\<close>. The chunk is undefined when \<open>rawIndex\<close> is
  undefined or negative, the chunk size is 0 or there is no such chunk; a name without
  any \<open>_storage\<close> entry throws. Every name that has chunks has a dimension info (the
  constructor makes one for each dimension), so \<open>_dimensionInfos[dim].ordinalMeta\<close>
  does not throw.
\<close>

definition getRawValueFromStore ::
  "data_list \<Rightarrow> nat option \<Rightarrow> int option \<Rightarrow> error + id_value option"
where
  "getRawValueFromStore st dimIndex rawIndex =
     (case dimIndex of
        None \<Rightarrow> Inr None
      | Some di \<Rightarrow>
          (let dimName = (case array_read (dimensions st) di of
                            None \<Rightarrow> ''undefined''
                          | Some d \<Rightarrow> d)
           in case dim_store st dimName of
                None \<Rightarrow> Inl TypeError
              | Some dimStore \<Rightarrow>
                  (case rawIndex of
                     None \<Rightarrow> Inr None
                   | Some r \<Rightarrow>
                       (if r < 0 \<or> chunkSize st = 0 then Inr None
                        else
                          (case array_read dimStore (nat r div chunkSize st) of
                             None \<Rightarrow> Inr None
                           | Some chunk \<Rightarrow>
                               (let val = chunk_read chunk (nat r mod chunkSize st) in
                                case ordinalCategories st dimName of
                                  None \<Rightarrow> Inr (if val = Undefined then None else Some (IdNum val))
                                | Some cats \<Rightarrow>
                                    (if length cats \<noteq> 0
                                     then Inr (map_option IdStr (category_at cats val))
                                     else Inr (if val = Undefined then None
                                               else Some (IdNum val)))))))))"

text \<open>\<open>ID_PREFIX + rawIndex\<close>\<close>

definition prefixed_id :: "int option \<Rightarrow> string" where
  "prefixed_id rawIndex =
     ID_PREFIX @ (case rawIndex of None \<Rightarrow> ''undefined'' | Some r \<Rightarrow> string_of_int r)"

text \<open>The module-level \<open>getId(list, rawIndex)\<close>.\<close>

definition getId_raw :: "data_list \<Rightarrow> int option \<Rightarrow> error + id_value" where
  "getId_raw st rawIndex =
     (case (case rawIndex of
              None \<Rightarrow> None
            | Some r \<Rightarrow> (if r < 0 then None else idList st (nat r))) of
        Some v \<Rightarrow> Inr v
      | None \<Rightarrow>
          (case getRawValueFromStore st (idDimIdx st) rawIndex of
             Inl e \<Rightarrow> Inl e
           | Inr (Some v) \<Rightarrow> Inr v
           | Inr None \<Rightarrow> Inr (IdStr (prefixed_id rawIndex))))"

text \<open>The method \<open>getId(idx)\<close>.\<close>

definition getId :: "data_list \<Rightarrow> int \<Rightarrow> error + id_value" where
  "getId st idx =
     (case getRawIndex st idx of
        Inl e \<Rightarrow> Inl e
      | Inr rawIndex \<Rightarrow> getId_raw st rawIndex)"

subsection \<open>Identity of ingested rows\<close>













section \<open>Well-formed stores and examples\<close>

text \<open>
  The logical view: the raw position of every logical position, in order.
\<close>

definition view :: "data_list \<Rightarrow> nat list" where
  "view st = (case indices st of None \<Rightarrow> [0..<count st] | Some ind \<Rightarrow> take (count st) ind)"

text \<open>
  The chunks of a dimension cover every raw position: chunk \<open>r div chunkSize\<close> exists
  and has the slot \<open>r mod chunkSize\<close>.
\<close>

definition chunks_ok :: "data_list \<Rightarrow> pvalue list list \<Rightarrow> bool" where
  "chunks_ok st dimStore =
     (\<forall>r \<in> set [0..<rawCount st].
        r div chunkSize st < length dimStore
        \<and> r mod chunkSize st < length (dimStore ! (r div chunkSize st)))"

definition storage_ok :: "data_list \<Rightarrow> string \<Rightarrow> bool" where
  "storage_ok st d = (case storage st d of None \<Rightarrow> True | Some dimStore \<Rightarrow> chunks_ok st dimStore)"

text \<open>
  What ingestion and the view operations maintain: a positive chunk size, chunks for
  all raw rows, a raw count that the index arrays can hold, the method slot in step
  with \<open>_indices\<close>, no hidden rows without an index array, and an index array that
  covers the logical positions with raw positions.
\<close>

definition well_formed :: "data_list \<Rightarrow> bool" where
  "well_formed st =
     (chunkSize st > 0 \<and> count st \<le> rawCount st
      \<and> rawCount st \<le> chunkCount st * chunkSize st \<and> rawCount st \<le> 2 ^ 32
      \<and> (case indices st of
            None \<Rightarrow> getRawIndexFn st = getRawIndexWithoutIndices \<and> count st = rawCount st
          | Some ind \<Rightarrow>
              getRawIndexFn st = getRawIndexWithIndices \<and> count st \<le> length ind
              \<and> (\<forall>p \<in> set [0..<count st]. ind ! p < rawCount st)))"

text \<open>
  The store of the scenario: dimensions \<open>x\<close> and \<open>y\<close>, rows \<open>[1, 10]\<close>,
  \<open>[2, NaN]\<close>, \<open>[3, 30]\<close>, chunks of the default size.
\<close>

definition xy_store :: data_list where
  "xy_store =
     \<lparr>dimensions = [''x'', ''y''], ordinalCategories = Map.empty, indices = None,
      count = 3, rawCount = 3,
      storage = [''x'' \<mapsto> [[Fin 1, Fin 2, Fin 3]], ''y'' \<mapsto> [[Fin 10, NaN, Fin 30]]],
      nameList = Map.empty, idList = Map.empty, chunkSize = 100000, chunkCount = 1,
      rawExtent = [''x'' \<mapsto> 0, ''y'' \<mapsto> 1], extent = Map.empty,
      nameDimIdx = None, idDimIdx = None,
      getRawIndexFn = getRawIndexWithoutIndices, nameRepeatCount = Map.empty,
      heap = [(Fin 1, Fin 3), (Fin 10, Fin 30)]\<rparr>"

text \<open>The same rows in chunks of two slots.\<close>

definition xy_chunked :: data_list where
  "xy_chunked =
     xy_store\<lparr>storage := [''x'' \<mapsto> [[Fin 1, Fin 2], [Fin 3]], ''y'' \<mapsto> [[Fin 10, NaN], [Fin 30]]],
              chunkSize := 2, chunkCount := 2\<rparr>"

text \<open>The store after rows 0 and 2 were kept by a filter.\<close>

definition xy_filtered :: data_list where
  "xy_filtered =
     xy_store\<lparr>indices := Some [0, 2, 0], count := 2,
              getRawIndexFn := getRawIndexWithIndices\<rparr>"

text \<open>The filtered store once \<open>getDataExtent\<close> has scanned and cached the extent of \<open>x\<close>.\<close>

definition xy_cached :: data_list where
  "xy_cached =
     xy_filtered\<lparr>extent := [''x'' \<mapsto> 3],
                heap := [(Fin 1, Fin 3), (Fin 10, Fin 30), (PosInf, NegInf), (Fin 1, Fin 3)]\<rparr>"

text \<open>
  The store after a filter kept no row, and the same once \<open>getDataExtent\<close> has cached
  the extent of \<open>x\<close> over the empty view.
\<close>

definition xy_hidden :: data_list where
  "xy_hidden =
     xy_store\<lparr>indices := Some [0, 0, 0], count := 0,
              getRawIndexFn := getRawIndexWithIndices\<rparr>"

definition xy_hidden_cached :: data_list where
  "xy_hidden_cached =
     xy_hidden\<lparr>extent := [''x'' \<mapsto> 3],
              heap := [(Fin 1, Fin 3), (Fin 10, Fin 30), (PosInf, NegInf), (PosInf, NegInf)]\<rparr>"



text \<open>The value stored for the raw position \<open>r\<close> in the chunks of a dimension.\<close>

definition raw_value :: "data_list \<Rightarrow> pvalue list list \<Rightarrow> nat \<Rightarrow> pvalue" where
  "raw_value st dimStore r =
     chunk_read (dimStore ! (r div chunkSize st)) (r mod chunkSize st)"

section \<open>Notions used in the statements\<close>

text \<open>The stores \<open>newIndices[offset++] = v\<close> for the values \<open>vs\<close> in order.\<close>

fun blit :: "nat list \<Rightarrow> nat \<Rightarrow> nat list \<Rightarrow> nat list" where
  "blit newIndices offset [] = newIndices"
| "blit newIndices offset (v # vs) = blit (newIndices[offset := v]) (Suc offset) vs"

text \<open>
  The logical positions for which the callback of \<open>filterSelf\<close> returned true
  (a row whose read throws has no result).
\<close>

definition filterSelf_retained ::
  "data_list \<Rightarrow> string list \<Rightarrow> (pvalue list \<Rightarrow> nat \<Rightarrow> bool) \<Rightarrow> nat list"
where
  "filterSelf_retained st dimNames cb =
     filter
       (\<lambda>i. case getRawIndex st (int i) of
              Inl e \<Rightarrow> False
            | Inr rawIdx \<Rightarrow>
                (case filterSelf_keep st dimNames cb i rawIdx of Inl e \<Rightarrow> False | Inr k \<Rightarrow> k))
       [0..<count st]"

text \<open>
  The two chunk-wise loops of \<open>selectRange\<close> as one loop over a per-chunk header
  (the reads made before the inner loop, which may throw) that yields the decision for
  the slots of the chunk.
\<close>

fun chunks_loop ::
  "data_list \<Rightarrow> (nat \<Rightarrow> error + (nat \<Rightarrow> error + bool)) \<Rightarrow> nat list \<Rightarrow> nat list \<times> nat \<times> nat
     \<Rightarrow> error + nat list \<times> nat \<times> nat"
where
  "chunks_loop st header [] s = Inr s"
| "chunks_loop st header (k # ks) s =
     (case header k of
        Inl e \<Rightarrow> Inl e
      | Inr keep \<Rightarrow>
          (case fast_inner keep (getIndicesCtor st) [0..<nat (chunk_len st k)] s of
             Inl e \<Rightarrow> Inl e
           | Inr s' \<Rightarrow> chunks_loop st header ks s'))"

text \<open>The headers of the two chunk-wise loops.\<close>

definition fast1_header ::
  "pvalue list list option \<Rightarrow> pvalue \<Rightarrow> pvalue \<Rightarrow> nat \<Rightarrow> error + (nat \<Rightarrow> error + bool)"
where
  "fast1_header dimStorage lo hi k =
     (case dimStorage of
        None \<Rightarrow> Inl TypeError
      | Some chunks \<Rightarrow>
          Inr (\<lambda>i. case array_read chunks k of
                     None \<Rightarrow> Inl TypeError
                   | Some chunkStorage \<Rightarrow> Inr (in_range (chunk_read chunkStorage i) lo hi)))"

definition fast2_header ::
  "pvalue list list option \<Rightarrow> pvalue list list option \<Rightarrow> pvalue \<Rightarrow> pvalue \<Rightarrow> pvalue \<Rightarrow> pvalue
     \<Rightarrow> nat \<Rightarrow> error + (nat \<Rightarrow> error + bool)"
where
  "fast2_header dimStorage dimStorage2 lo hi lo2 hi2 k =
     (case dimStorage of
        None \<Rightarrow> Inl TypeError
      | Some chunks \<Rightarrow>
          (case dimStorage2 of
             None \<Rightarrow> Inl TypeError
           | Some chunks2 \<Rightarrow>
               Inr (\<lambda>i. case array_read chunks k of
                          None \<Rightarrow> Inl TypeError
                        | Some chunkStorage \<Rightarrow>
                            (case array_read chunks2 k of
                               None \<Rightarrow> Inl TypeError
                             | Some chunkStorage2 \<Rightarrow>
                                 Inr (in_range (chunk_read chunkStorage i) lo hi
                                      \<and> in_range (chunk_read chunkStorage2 i) lo2 hi2)))))"

text \<open>
  The two computations that \<open>selectRange\<close> over one dimension chooses between, both
  from a fresh index array: the chunk-wise fast path (its \<open>idx\<close> counter dropped from
  the result) and the generic per-row loop.
\<close>

definition fast_path1 :: "data_list \<Rightarrow> string \<Rightarrow> pvalue \<Rightarrow> pvalue \<Rightarrow> error + nat list \<times> nat" where
  "fast_path1 st dim0 lo hi =
     (case selectRange_fast1 st (dim_store st dim0) lo hi [0..<chunkCount st]
             (replicate (count st) 0, 0, 0) of
        Inl e \<Rightarrow> Inl e
      | Inr (newIndices, offset, idx) \<Rightarrow> Inr (newIndices, offset))"

definition generic_path1 :: "data_list \<Rightarrow> string \<Rightarrow> pvalue \<Rightarrow> pvalue \<Rightarrow> error + nat list \<times> nat" where
  "generic_path1 st dim0 lo hi =
     rows_loop st (selectRange_keep1 st dim0 lo hi) [0..<count st] (replicate (count st) 0, 0)"

text \<open>
  One step of the scan of \<open>getDataExtent\<close>, and the values of a dimension at the
  logical positions, in order.
\<close>

definition extent_step :: "pvalue \<times> pvalue \<Rightarrow> pvalue \<Rightarrow> pvalue \<times> pvalue" where
  "extent_step p val =
     (if js_lt val (fst p) then val else fst p, if js_gt val (snd p) then val else snd p)"

definition view_values :: "data_list \<Rightarrow> pvalue list list \<Rightarrow> pvalue list" where
  "view_values st dimStore = map (raw_value st dimStore) (view st)"





section \<open>Reading values\<close>

lemmas read_defs = get_def getByRawIndex_def getFast_def getRawIndex_def read_chunked_def
  array_read_def chunk_read_def dim_store_def proto_keys_def inherited_keys_def

lemmas store_defs = xy_store_def xy_chunked_def xy_filtered_def

lemma dim_store_own: "storage st d = Some dimStore \<Longrightarrow> dim_store st d = Some dimStore"
  by (simp add: dim_store_def)

lemma length_view: "well_formed st \<Longrightarrow> length (view st) = count st"
  by (auto simp: well_formed_def view_def split: option.splits)

lemma view_less_rawCount: "well_formed st \<Longrightarrow> i < count st \<Longrightarrow> view st ! i < rawCount st"
  by (auto simp: well_formed_def view_def split: option.splits)

lemma getRawIndex_view:
  "well_formed st \<Longrightarrow> i < count st \<Longrightarrow> getRawIndex st (int i) = Inr (Some (int (view st ! i)))"
  by (auto simp: well_formed_def view_def getRawIndex_def array_read_def split: option.splits)

lemma read_chunked_raw_value:
  "chunks_ok st dimStore \<Longrightarrow> 0 < chunkSize st \<Longrightarrow> r < rawCount st \<Longrightarrow>
     read_chunked (chunkSize st) dimStore (Some (int r)) = Inr (raw_value st dimStore r)"
  by (auto simp: chunks_ok_def read_chunked_def array_read_def raw_value_def)

lemma getFast_raw_value:
  "well_formed st \<Longrightarrow> storage_ok st d \<Longrightarrow> storage st d = Some dimStore \<Longrightarrow> r < rawCount st \<Longrightarrow>
     getFast st d (Some (int r)) = Inr (raw_value st dimStore r)"
  by (simp add: getFast_def dim_store_own storage_ok_def well_formed_def read_chunked_raw_value)

lemma get_view:
  "well_formed st \<Longrightarrow> storage_ok st d \<Longrightarrow> storage st d = Some dimStore \<Longrightarrow> i < count st \<Longrightarrow>
     get st d (int i) = Inr (raw_value st dimStore (view st ! i))"
  by (simp add: get_def dim_store_own getRawIndex_view storage_ok_def read_chunked_raw_value
      view_less_rawCount well_formed_def)

lemma get_outside_range:
  "idx < 0 \<or> int (count st) \<le> idx \<Longrightarrow> get st d idx = Inr NaN"
  by (auto simp: get_def)

lemma getByRawIndex_outside_range:
  "rawIdx < 0 \<or> int (rawCount st) \<le> rawIdx \<Longrightarrow> getByRawIndex st d rawIdx = Inr NaN"
  by (auto simp: getByRawIndex_def)

lemma get_unknown_name:
  "storage st d = None \<Longrightarrow> d \<notin> set proto_keys \<Longrightarrow>
     get st d idx = Inr NaN \<and> getByRawIndex st d rawIdx = Inr NaN"
  by (simp add: get_def getByRawIndex_def dim_store_def)

text \<open>
  C5. The store of rows \<open>[1, 10]\<close>, \<open>[2, NaN]\<close>, \<open>[3, 30]\<close> has storage for the
  dimensions \<open>x\<close> and \<open>y\<close> only. For the absent name \<open>z\<close>, \<open>get\<close> and \<open>getByRawIndex\<close>
  return NaN at position 0; for the absent name \<open>constructor\<close> both throw there: the
  lookup \<open>this._storage[dim]\<close> finds \<open>Object.prototype.constructor\<close>, the guard for an
  absent dimension lets it pass, and the chunk read from it is undefined.
\<close>

theorem get_inherited_name_throws:
  "storage xy_store ''z'' = None \<and> storage xy_store ''constructor'' = None
   \<and> get xy_store ''z'' 0 = Inr NaN \<and> getByRawIndex xy_store ''z'' 0 = Inr NaN
   \<and> get xy_store ''constructor'' 0 = Inl TypeError
   \<and> getByRawIndex xy_store ''constructor'' 0 = Inl TypeError"
  by (simp add: xy_store_def read_defs)

section \<open>getSum\<close>

lemma getSum_loop_foldl:
  "\<forall>i \<in> set js. get st d (int i) = Inr (f i) \<Longrightarrow>
     getSum_loop add st d js acc = Inr (foldl add acc (filter (\<lambda>v. \<not> isNaN v) (map f js)))"
  by (induction js arbitrary: acc) auto

lemma getSum_stored_dimension:
  assumes "well_formed st" and "storage st d = Some dimStore" and "chunks_ok st dimStore"
  shows "getSum add st d
    = Inr (foldl add (Fin 0) (filter (\<lambda>v. \<not> isNaN v) (view_values st dimStore)))"
proof -
  define f where "f = (\<lambda>i. raw_value st dimStore (view st ! i))"
  have ok: "storage_ok st d" using assms(2,3) by (simp add: storage_ok_def)
  have "\<forall>i \<in> set [0..<count st]. get st d (int i) = Inr (f i)"
    using assms(1) ok assms(2) by (simp add: get_view f_def)
  then have "getSum_loop add st d [0..<count st] (Fin 0)
      = Inr (foldl add (Fin 0) (filter (\<lambda>v. \<not> isNaN v) (map f [0..<count st])))"
    by (rule getSum_loop_foldl)
  moreover have "map f [0..<count st] = view_values st dimStore"
  proof -
    have "map (raw_value st dimStore) (map ((!) (view st)) [0..<length (view st)])
        = map (raw_value st dimStore) (view st)"
      by (simp only: map_nth)
    then show ?thesis
      by (simp add: f_def view_values_def length_view [OF assms(1)] comp_def)
  qed
  ultimately show ?thesis by (simp add: getSum_def dim_store_own [OF assms(2)])
qed

lemma getSum_unknown_name:
  "storage st d = None \<Longrightarrow> d \<notin> set proto_keys \<Longrightarrow> getSum add st d = Inr (Fin 0)"
  by (simp add: getSum_def dim_store_def)

text \<open>
  C10. On the store of rows \<open>[1, 10]\<close>, \<open>[2, NaN]\<close>, \<open>[3, 30]\<close> the sum of \<open>y\<close> is 40
  and the sum of the absent name \<open>z\<close> is 0, but \<open>getSum\<close> of the absent name
  \<open>toString\<close> throws: \<open>this._storage[dim]\<close> finds \<open>Object.prototype.toString\<close>, which is
  truthy, so the loop runs and its first \<open>get\<close> reads a chunk that is undefined.
\<close>

theorem getSum_inherited_name_throws:
  "storage xy_store ''toString'' = None \<and> 0 < count xy_store
   \<and> getSum js_add xy_store ''y'' = Inr (Fin 40)
   \<and> getSum js_add xy_store ''z'' = Inr (Fin 0)
   \<and> getSum js_add xy_store ''toString'' = Inl TypeError"
  by (simp add: getSum_def xy_store_def read_defs upt_rec)

section \<open>Writing an index array\<close>

lemma length_blit [simp]: "length (blit ni off vs) = length ni"
  by (induction vs arbitrary: ni off) auto

lemma take_blit:
  "off + length vs \<le> length ni \<Longrightarrow> take (off + length vs) (blit ni off vs) = take off ni @ vs"
proof (induction vs arbitrary: ni off)
  case Nil
  then show ?case by simp
next
  case (Cons v vs)
  have "take (Suc off + length vs) (blit (ni[off := v]) (Suc off) vs)
      = take (Suc off) (ni[off := v]) @ vs"
    using Cons.prems by (intro Cons.IH) simp
  moreover have "take (Suc off) (ni[off := v]) = take off ni @ [v]"
    using Cons.prems by (simp add: take_Suc_conv_app_nth)
  ultimately show ?case by simp
qed

lemma blit_append: "blit ni off (xs @ ys) = blit (blit ni off xs) (off + length xs) ys"
  by (induction xs arbitrary: ni off) auto

lemma typed_store_id:
  "well_formed st \<Longrightarrow> r < rawCount st \<Longrightarrow> typed_store (getIndicesCtor st) (Some (int r)) = r"
proof -
  assume wf: "well_formed st" and r: "r < rawCount st"
  have "int r < 2 ^ getIndicesCtor st"
  proof (cases "rawCount st > 65535")
    case True
    then have "getIndicesCtor st = 32" by (simp add: getIndicesCtor_def)
    moreover have "r < 2 ^ 32" using wf r by (simp add: well_formed_def)
    ultimately show ?thesis by (metis of_nat_less_iff of_nat_numeral of_nat_power)
  next
    case False
    then have "getIndicesCtor st = 16" by (simp add: getIndicesCtor_def)
    moreover have "r < 2 ^ 16" using False r by simp
    ultimately show ?thesis by (metis of_nat_less_iff of_nat_numeral of_nat_power)
  qed
  then show ?thesis by (simp add: typed_store_def)
qed

lemma rows_loop_view:
  assumes "well_formed st"
    and "\<forall>i \<in> set js. i < count st \<and> keep i (Some (int (view st ! i))) = Inr (P i)"
  shows "rows_loop st keep js (ni, off)
    = Inr (blit ni off (map (\<lambda>i. view st ! i) (filter P js)), off + length (filter P js))"
  using assms(2)
proof (induction js arbitrary: ni off)
  case Nil
  then show ?case by simp
next
  case (Cons i js)
  have i: "i < count st" and k: "keep i (Some (int (view st ! i))) = Inr (P i)"
    using Cons.prems by simp_all
  have raw: "getRawIndex st (int i) = Inr (Some (int (view st ! i)))"
    using assms(1) i by (rule getRawIndex_view)
  have store: "typed_store (getIndicesCtor st) (Some (int (view st ! i))) = view st ! i"
    using assms(1) i by (simp add: typed_store_id view_less_rawCount)
  show ?case
    using Cons.prems by (simp add: raw k store Cons.IH)
qed

section \<open>filterSelf\<close>

lemma rows_loop_succeeds:
  "rows_loop st keep js s = Inr s' \<Longrightarrow>
     \<forall>i \<in> set js. \<exists>r b. getRawIndex st (int i) = Inr r \<and> keep i r = Inr b"
proof (induction js arbitrary: s)
  case Nil
  then show ?case by simp
next
  case (Cons i js)
  obtain ni off where s: "s = (ni, off)" by (cases s)
  from Cons.prems obtain r where r: "getRawIndex st (int i) = Inr r"
    by (auto simp: s split: sum.splits)
  from Cons.prems obtain b where b: "keep i r = Inr b"
    by (auto simp: s r split: sum.splits)
  from Cons.prems have "\<exists>s1. rows_loop st keep js s1 = Inr s'"
    by (auto simp: s r b split: if_splits)
  then have "\<forall>i \<in> set js. \<exists>r b. getRawIndex st (int i) = Inr r \<and> keep i r = Inr b"
    using Cons.IH by blast
  then show ?case using r b by simp
qed

lemma subseq_map_nth_filter: "subseq (map ((!) xs) (filter P [0..<length xs])) xs"
proof -
  have "subseq (map ((!) xs) (filter P [0..<length xs])) (map ((!) xs) [0..<length xs])"
    by (intro subseq_map subseq_filter_left)
  then show ?thesis by (simp add: map_nth)
qed

lemma sorted_wrt_subseq: "subseq ys xs \<Longrightarrow> sorted_wrt R xs \<Longrightarrow> sorted_wrt R ys"
proof (induction rule: list_emb.induct)
  case (list_emb_Nil ys)
  then show ?case by simp
next
  case (list_emb_Cons xs ys y)
  then show ?case by simp
next
  case (list_emb_Cons2 x y xs ys)
  then have "set xs \<subseteq> set ys" by (auto dest: list_emb_set)
  with list_emb_Cons2 show ?case by auto
qed

lemma filterSelf_result:
  assumes wf: "well_formed st" and run: "filterSelf st dimNames cb = Inr st'" and pos: "0 < count st"
  shows "st' = set_indices st (count st)
           (blit (replicate (count st) 0) 0
              (map ((!) (view st)) (filterSelf_retained st dimNames cb)))
           (length (filterSelf_retained st dimNames cb))"
proof -
  define keep where "keep = filterSelf_keep st dimNames cb"
  define P where "P = (\<lambda>i. case getRawIndex st (int i) of
              Inl e \<Rightarrow> False
            | Inr rawIdx \<Rightarrow> (case keep i rawIdx of Inl e \<Rightarrow> False | Inr k \<Rightarrow> k))"
  from run pos obtain s' where
    loop: "rows_loop st keep [0..<count st] (replicate (count st) 0, 0) = Inr s'"
    and st': "st' = set_indices st (count st) (fst s') (snd s')"
    by (auto simp: filterSelf_def keep_def split: sum.splits)
  have "\<forall>i \<in> set [0..<count st]. \<exists>r b. getRawIndex st (int i) = Inr r \<and> keep i r = Inr b"
    using loop by (rule rows_loop_succeeds)
  then have "\<forall>i \<in> set [0..<count st].
      i < count st \<and> keep i (Some (int (view st ! i))) = Inr (P i)"
    using wf by (auto simp: P_def getRawIndex_view)
  then have "rows_loop st keep [0..<count st] (replicate (count st) 0, 0)
    = Inr (blit (replicate (count st) 0) 0 (map (\<lambda>i. view st ! i) (filter P [0..<count st])),
           0 + length (filter P [0..<count st]))"
    by (rule rows_loop_view [OF wf])
  with loop have "s' = (blit (replicate (count st) 0) 0 (map ((!) (view st)) (filter P [0..<count st])),
           length (filter P [0..<count st]))"
    by simp
  moreover have "filter P [0..<count st] = filterSelf_retained st dimNames cb"
    unfolding filterSelf_retained_def P_def keep_def by (rule refl)
  ultimately show ?thesis using st' by simp
qed


lemma filterSelf_retained_length: "length (filterSelf_retained st dimNames cb) \<le> count st"
proof -
  have "length (filterSelf_retained st dimNames cb) \<le> length [0..<count st]"
    unfolding filterSelf_retained_def by (rule length_filter_le)
  then show ?thesis by simp
qed

lemma set_indices_fields:
  "count (set_indices st n ni off) = off"
  "indices (set_indices st n ni off) = (if off < n then Some ni else indices st)"
  "getRawIndexFn (set_indices st n ni off)
     = (if off < n \<or> indices st \<noteq> None then getRawIndexWithIndices
        else getRawIndexWithoutIndices)"
  "extent (set_indices st n ni off) = Map.empty"
  by (simp_all add: set_indices_def Let_def)

lemma set_indices_frame:
  "storage (set_indices st n ni off) = storage st"
  "rawExtent (set_indices st n ni off) = rawExtent st"
  "heap (set_indices st n ni off) = heap st"
  "rawCount (set_indices st n ni off) = rawCount st"
  "chunkSize (set_indices st n ni off) = chunkSize st"
  "chunkCount (set_indices st n ni off) = chunkCount st"
  "idList (set_indices st n ni off) = idList st"
  "nameList (set_indices st n ni off) = nameList st"
  "idDimIdx (set_indices st n ni off) = idDimIdx st"
  "nameDimIdx (set_indices st n ni off) = nameDimIdx st"
  "dimensions (set_indices st n ni off) = dimensions st"
  "ordinalCategories (set_indices st n ni off) = ordinalCategories st"
  by (simp_all add: set_indices_def Let_def)

lemma view_set_indices:
  assumes "length vs \<le> n"
  shows "view (set_indices st n (blit (replicate n 0) 0 vs) (length vs))
    = (if length vs < n then vs else view (st\<lparr>count := n\<rparr>))"
proof (cases "length vs < n")
  case True
  have "take (0 + length vs) (blit (replicate n 0) 0 vs) = take 0 (replicate n 0) @ vs"
    using assms by (intro take_blit) simp
  then show ?thesis using True by (simp add: view_def set_indices_fields)
next
  case False
  then have "length vs = n" using assms by simp
  then show ?thesis by (simp add: view_def set_indices_fields split: option.splits)
qed

text \<open>
  C3. After a \<open>filterSelf\<close> call on a well-formed store: if every row was retained, the
  index array, the count and the translation function are the previous ones; otherwise
  \<open>count()\<close> is the number of retained rows, the new index array lists in its first
  \<open>count()\<close> entries the raw positions of the retained rows, in the order of the previous
  view (a subsequence of it, ascending when the previous view is), and
  \<open>getRawIndex\<close> is the via-index function.
\<close>

theorem filterSelf_installs_view:
  assumes "well_formed st" and "filterSelf st dimNames cb = Inr st'"
  shows "(length (filterSelf_retained st dimNames cb) = count st \<longrightarrow>
            indices st' = indices st \<and> getRawIndexFn st' = getRawIndexFn st
            \<and> count st' = count st)
    \<and> (length (filterSelf_retained st dimNames cb) \<noteq> count st \<longrightarrow>
            count st' = length (filterSelf_retained st dimNames cb)
            \<and> (\<exists>ind. indices st' = Some ind
                  \<and> take (count st') ind = map ((!) (view st)) (filterSelf_retained st dimNames cb))
            \<and> subseq (view st') (view st)
            \<and> (sorted_wrt (<) (view st) \<longrightarrow> sorted_wrt (<) (view st'))
            \<and> getRawIndexFn st' = getRawIndexWithIndices)"
proof (cases "count st = 0")
  case True
  then have "filterSelf_retained st dimNames cb = []"
    by (simp add: filterSelf_retained_def)
  moreover have "st' = st" using assms(2) True by (simp add: filterSelf_def)
  ultimately show ?thesis using True by simp
next
  case False
  define kept where "kept = filterSelf_retained st dimNames cb"
  define vs where "vs = map ((!) (view st)) kept"
  have len: "length kept \<le> count st"
    unfolding kept_def by (rule filterSelf_retained_length)
  have "st' = set_indices st (count st) (blit (replicate (count st) 0) 0 vs) (length kept)"
    using filterSelf_result [OF assms] False by (simp add: kept_def vs_def)
  then have st': "st' = set_indices st (count st) (blit (replicate (count st) 0) 0 vs) (length vs)"
    by (simp add: vs_def)
  have lvs: "length vs = length kept" by (simp add: vs_def)
  have fn: "getRawIndexFn st = (if indices st \<noteq> None then getRawIndexWithIndices
        else getRawIndexWithoutIndices)"
    using assms(1) by (auto simp: well_formed_def split: option.splits)
  have all: "length kept = count st \<longrightarrow>
      indices st' = indices st \<and> getRawIndexFn st' = getRawIndexFn st \<and> count st' = count st"
    using fn by (simp add: st' set_indices_fields lvs)
  have sub: "subseq vs (view st)"
    unfolding vs_def kept_def filterSelf_retained_def
    using subseq_map_nth_filter [of "view st"] by (simp add: length_view [OF assms(1)])
  have some: "length kept \<noteq> count st \<longrightarrow>
      count st' = length kept
      \<and> (\<exists>ind. indices st' = Some ind \<and> take (count st') ind = vs)
      \<and> subseq (view st') (view st)
      \<and> (sorted_wrt (<) (view st) \<longrightarrow> sorted_wrt (<) (view st'))
      \<and> getRawIndexFn st' = getRawIndexWithIndices"
  proof
    assume "length kept \<noteq> count st"
    then have lt: "length vs < count st" using len lvs by simp
    have view': "view st' = vs"
      unfolding st' using view_set_indices [of vs "count st" st] lt by simp
    have c: "count st' = length kept" by (simp add: st' set_indices_fields lvs)
    have i: "indices st' = Some (blit (replicate (count st) 0) 0 vs)"
      using lt by (simp add: st' set_indices_fields)
    have t: "take (count st') (blit (replicate (count st) 0) 0 vs) = vs"
      using view' by (simp add: view_def i)
    have f: "getRawIndexFn st' = getRawIndexWithIndices"
      using lt by (simp add: st' set_indices_fields)
    have s: "sorted_wrt (<) (view st) \<longrightarrow> sorted_wrt (<) vs"
      using sub by (auto intro: sorted_wrt_subseq)
    show "count st' = length kept
      \<and> (\<exists>ind. indices st' = Some ind \<and> take (count st') ind = vs)
      \<and> subseq (view st') (view st)
      \<and> (sorted_wrt (<) (view st) \<longrightarrow> sorted_wrt (<) (view st'))
      \<and> getRawIndexFn st' = getRawIndexWithIndices"
      using c i t f s sub view' by simp
  qed
  show ?thesis
    using all some unfolding kept_def vs_def by blast
qed


lemma set_indices_well_formed:
  assumes wf: "well_formed st" and len: "length vs \<le> count st"
    and vs: "\<forall>v \<in> set vs. v < rawCount st"
  shows "well_formed (set_indices st (count st) (blit (replicate (count st) 0) 0 vs) (length vs))"
proof (cases "length vs < count st")
  case True
  have take: "take (0 + length vs) (blit (replicate (count st) 0) 0 vs)
      = take 0 (replicate (count st) 0) @ vs"
    using len by (intro take_blit) simp
  have "\<forall>p < length vs. blit (replicate (count st) 0) 0 vs ! p < rawCount st"
  proof (intro allI impI)
    fix p assume p: "p < length vs"
    have "blit (replicate (count st) 0) 0 vs ! p
        = take (length vs) (blit (replicate (count st) 0) 0 vs) ! p"
      using p by simp
    also have "\<dots> = vs ! p" using take by simp
    finally show "blit (replicate (count st) 0) 0 vs ! p < rawCount st"
      using vs p by simp
  qed
  then show ?thesis
    using wf True by (simp add: well_formed_def set_indices_fields set_indices_frame)
next
  case False
  then have "length vs = count st" using len by simp
  then show ?thesis
    using wf by (auto simp: well_formed_def set_indices_fields set_indices_frame
        split: option.splits)
qed

lemma filterSelf_well_formed:
  assumes "well_formed st" and "filterSelf st dimNames cb = Inr st'"
  shows "well_formed st'"
proof (cases "count st = 0")
  case True
  then show ?thesis using assms by (simp add: filterSelf_def)
next
  case False
  define vs where "vs = map ((!) (view st)) (filterSelf_retained st dimNames cb)"
  have st': "st' = set_indices st (count st) (blit (replicate (count st) 0) 0 vs) (length vs)"
    using filterSelf_result [OF assms] False by (simp add: vs_def)
  have "length vs \<le> count st"
    by (simp add: vs_def filterSelf_retained_length)
  moreover have "\<forall>v \<in> set vs. v < rawCount st"
    using assms(1) by (auto simp: vs_def filterSelf_retained_def view_less_rawCount)
  ultimately show ?thesis unfolding st' by (rule set_indices_well_formed [OF assms(1)])
qed

lemma filterSelf_value_replicate:
  "getFast st d r = Inr v \<Longrightarrow> filterSelf_value st d r ks = Inr (replicate (length ks) v)"
  by (induction ks) auto

lemma filterSelf_args_first_dimension:
  assumes "well_formed st" and "dimNames \<noteq> []" and "storage st (dimNames ! 0) = Some dimStore"
    and "chunks_ok st dimStore" and "r < rawCount st"
  shows "filterSelf_args st dimNames (Some (int r))
    = Inr (replicate (length dimNames) (raw_value st dimStore r))"
proof -
  have "getFast st (dimNames ! 0) (Some (int r)) = Inr (raw_value st dimStore r)"
    using assms by (intro getFast_raw_value) (simp_all add: storage_ok_def)
  then show ?thesis
    using assms(2) by (cases dimNames) (simp_all add: filterSelf_args_def filterSelf_value_replicate)
qed

lemma filterSelf_returns:
  assumes wf: "well_formed st"
    and dims: "dimNames = [] \<or> (\<exists>dimStore. storage st (dimNames ! 0) = Some dimStore
                 \<and> chunks_ok st dimStore)"
  shows "\<exists>st'. filterSelf st dimNames cb = Inr st'"
proof (cases "count st = 0")
  case True
  then show ?thesis by (simp add: filterSelf_def)
next
  case False
  have "\<exists>f. \<forall>r < rawCount st. filterSelf_args st dimNames (Some (int r)) = Inr (f r)"
  proof (cases "dimNames = []")
    case True
    then have "\<forall>r < rawCount st. filterSelf_args st dimNames (Some (int r)) = Inr []"
      by (simp add: filterSelf_args_def)
    then show ?thesis by (rule exI [of _ "\<lambda>r. []"])
  next
    case ne: False
    then obtain dimStore where "storage st (dimNames ! 0) = Some dimStore" "chunks_ok st dimStore"
      using dims by blast
    then have "\<forall>r < rawCount st. filterSelf_args st dimNames (Some (int r))
        = Inr (replicate (length dimNames) (raw_value st dimStore r))"
      using filterSelf_args_first_dimension [OF wf ne] by blast
    then show ?thesis
      by (rule exI [of _ "\<lambda>r. replicate (length dimNames) (raw_value st dimStore r)"])
  qed
  then obtain f where f: "\<forall>r < rawCount st. filterSelf_args st dimNames (Some (int r)) = Inr (f r)"
    by blast
  have "\<forall>i \<in> set [0..<count st]. i < count st
      \<and> filterSelf_keep st dimNames cb i (Some (int (view st ! i))) = Inr (cb (f (view st ! i)) i)"
    using f wf by (simp add: filterSelf_keep_def view_less_rawCount)
  from rows_loop_view [where keep = "filterSelf_keep st dimNames cb"
      and P = "\<lambda>i. cb (f (view st ! i)) i", OF wf this]
  show ?thesis
    using False by (simp add: filterSelf_def)
qed

theorem filterSelf_installs_view_witness:
  "\<exists>st'. filterSelf xy_store [''x''] (\<lambda>vs i. vs ! 0 \<noteq> Fin 2) = Inr st'
     \<and> count st' = 2 \<and> view st' = [0, 2]
     \<and> subseq (view st') (view xy_store) \<and> sorted_wrt (<) (view st')
     \<and> getRawIndexFn st' = getRawIndexWithIndices"
proof -
  define cb where "cb = (\<lambda>vs (i :: nat). vs ! 0 \<noteq> Fin 2)"
  have wf: "well_formed xy_store" by (simp add: well_formed_def xy_store_def)
  have "\<exists>dimStore. storage xy_store ([''x''] ! 0) = Some dimStore \<and> chunks_ok xy_store dimStore"
    by (simp add: xy_store_def chunks_ok_def upt_rec)
  then obtain st' where run: "filterSelf xy_store [''x''] cb = Inr st'"
    using filterSelf_returns [OF wf] by blast
  have kept: "filterSelf_retained xy_store [''x''] cb = [0, 2]"
    by (simp add: filterSelf_retained_def filterSelf_keep_def filterSelf_args_def cb_def
        xy_store_def read_defs upt_rec)
  have v: "view xy_store = [0, 1, 2]" by (simp add: view_def xy_store_def upt_rec)
  have c: "count xy_store = 3" by (simp add: xy_store_def)
  note inst = filterSelf_installs_view [OF wf run]
  have 1: "count st' = 2" using inst by (simp add: kept c)
  have 2: "getRawIndexFn st' = getRawIndexWithIndices" using inst by (simp add: kept c)
  have 3: "subseq (view st') (view xy_store)" using inst by (simp add: kept c)
  have 4: "sorted_wrt (<) (view st')" using inst by (simp add: kept c v)
  have "\<exists>ind. indices st' = Some ind \<and> take (count st') ind = map ((!) (view xy_store)) [0, 2]"
    using inst by (auto simp: kept c)
  then obtain ind where "indices st' = Some ind"
    and "take (count st') ind = map ((!) (view xy_store)) [0, 2]" by blast
  then have 5: "view st' = [0, 2]" by (simp add: view_def [of st'] v)
  show ?thesis using run 1 2 3 4 5 unfolding cb_def by blast
qed

text \<open>
  C1. On the store of rows \<open>[1, 10]\<close>, \<open>[2, NaN]\<close>, \<open>[3, 30]\<close> a \<open>filterSelf\<close> over
  the dimensions \<open>x\<close> and \<open>y\<close> hands the callback, for the row at raw position 0, the
  value of \<open>x\<close> twice, although \<open>y\<close> holds 10 there; a callback that keeps the rows
  whose second argument is 10 therefore keeps no row.
\<close>

theorem filterSelf_two_dimensions_reads_first_twice:
  "filterSelf_args xy_store [''x'', ''y''] (Some 0) = Inr [Fin 1, Fin 1]
   \<and> getFast xy_store ''y'' (Some 0) = Inr (Fin 10)
   \<and> filterSelf_retained xy_store [''x'', ''y''] (\<lambda>vs i. vs ! 1 = Fin 10) = []"
  by (simp add: filterSelf_retained_def filterSelf_keep_def filterSelf_args_def
      xy_store_def read_defs upt_rec)

section \<open>selectRange\<close>

lemma fast_inner_succeeds:
  "fast_inner keep bits js s = Inr s' \<Longrightarrow> \<forall>i \<in> set js. \<exists>b. keep i = Inr b"
proof (induction js arbitrary: s)
  case Nil
  then show ?case by simp
next
  case (Cons i js)
  obtain ni off idx where s: "s = (ni, off, idx)" by (cases s)
  from Cons.prems obtain b where b: "keep i = Inr b"
    by (auto simp: s split: sum.splits)
  from Cons.prems have "\<exists>s1. fast_inner keep bits js s1 = Inr s'"
    by (auto simp: s b split: if_splits)
  then have "\<forall>i \<in> set js. \<exists>b. keep i = Inr b"
    using Cons.IH by blast
  then show ?case using b by simp
qed

lemma fast_inner_range:
  assumes "\<forall>i. a \<le> i \<and> i < b \<longrightarrow>
      keep i = Inr (Q (base + i)) \<and> typed_store bits (Some (int (base + i))) = base + i"
    and "a \<le> b"
  shows "fast_inner keep bits [a..<b] (ni, off, base + a)
    = Inr (blit ni off (filter Q [base + a..<base + b]),
           off + length (filter Q [base + a..<base + b]), base + b)"
  using assms
proof (induction "b - a" arbitrary: a ni off)
  case 0
  then show ?case by simp
next
  case (Suc n)
  then have lt: "a < b" by simp
  have k: "keep a = Inr (Q (base + a))"
    and t: "typed_store bits (Some (int (base + a))) = base + a"
    using Suc.prems lt by simp_all
  have l1: "[a..<b] = a # [Suc a..<b]" using lt by (rule upt_conv_Cons)
  have l2: "[base + a..<base + b] = (base + a) # [base + Suc a..<base + b]"
    using lt by (simp add: upt_conv_Cons)
  have ih: "\<And>ni off. fast_inner keep bits [Suc a..<b] (ni, off, base + Suc a)
    = Inr (blit ni off (filter Q [base + Suc a..<base + b]),
           off + length (filter Q [base + Suc a..<base + b]), base + b)"
    using Suc.hyps(2) Suc.prems lt by (intro Suc.hyps(1)) auto
  show ?case
    unfolding l1 l2 using ih k t by (simp del: of_nat_add)
qed

lemma nat_chunk_len:
  "nat (chunk_len st k) = min (count st - k * chunkSize st) (chunkSize st)"
  unfolding chunk_len_def of_nat_mult [symmetric] by arith

lemma chunks_loop_succeeds:
  "chunks_loop st header ks s = Inr s' \<Longrightarrow>
     \<forall>k \<in> set ks. \<exists>keep. header k = Inr keep
        \<and> (\<forall>i \<in> set [0..<nat (chunk_len st k)]. \<exists>b. keep i = Inr b)"
proof (induction ks arbitrary: s)
  case Nil
  then show ?case by simp
next
  case (Cons k ks)
  from Cons.prems obtain keep where h: "header k = Inr keep"
    by (auto split: sum.splits)
  from Cons.prems obtain s1 where
    inner: "fast_inner keep (getIndicesCtor st) [0..<nat (chunk_len st k)] s = Inr s1"
    and rest: "chunks_loop st header ks s1 = Inr s'"
    by (auto simp: h split: sum.splits)
  have "\<forall>i \<in> set [0..<nat (chunk_len st k)]. \<exists>b. keep i = Inr b"
    using inner by (rule fast_inner_succeeds)
  moreover have "\<forall>k \<in> set ks. \<exists>keep. header k = Inr keep
        \<and> (\<forall>i \<in> set [0..<nat (chunk_len st k)]. \<exists>b. keep i = Inr b)"
    using rest by (rule Cons.IH)
  ultimately show ?case using h by simp
qed

lemma chunks_loop_range:
  assumes wf: "well_formed st"
    and hdr: "\<forall>k < n. \<exists>keep. header k = Inr keep
        \<and> (\<forall>i < chunkSize st. k * chunkSize st + i < count st
              \<longrightarrow> keep i = Inr (Q (k * chunkSize st + i)))"
    and "a \<le> n"
  shows "chunks_loop st header [a..<n] (ni, off, min (a * chunkSize st) (count st))
    = Inr (blit ni off (filter Q [min (a * chunkSize st) (count st)..<min (n * chunkSize st) (count st)]),
           off + length (filter Q [min (a * chunkSize st) (count st)..<min (n * chunkSize st) (count st)]),
           min (n * chunkSize st) (count st))"
  using assms(3)
proof (induction "n - a" arbitrary: a ni off)
  case 0
  then show ?case by simp
next
  case (Suc m)
  define cs where "cs = chunkSize st"
  define c where "c = count st"
  have cs: "0 < cs" using wf by (simp add: well_formed_def cs_def)
  have lt: "a < n" using Suc.hyps(2) by simp
  obtain keep where h: "header a = Inr keep"
    and keep: "\<forall>i < cs. a * cs + i < c \<longrightarrow> keep i = Inr (Q (a * cs + i))"
    using hdr lt unfolding cs_def c_def by blast
  define len where "len = min (c - a * cs) cs"
  define lo where "lo = min (a * cs) c"
  define mid where "mid = min (Suc a * cs) c"
  define hi where "hi = min (n * cs) c"
  have mid: "mid = lo + len" by (auto simp: mid_def lo_def len_def min_def)
  have lo_mid: "lo \<le> mid" by (simp add: mid)
  have "Suc a * cs \<le> n * cs" using lt by (intro mult_le_mono1) simp
  then have mid_hi: "mid \<le> hi" by (auto simp: mid_def hi_def min_def)
  have inner: "fast_inner keep (getIndicesCtor st) [0..<len] (ni, off, lo)
    = Inr (blit ni off (filter Q [lo..<mid]), off + length (filter Q [lo..<mid]), mid)"
  proof (cases "a * cs \<le> c")
    case True
    then have lo: "lo = a * cs" by (simp add: lo_def)
    have "\<forall>i. 0 \<le> i \<and> i < len \<longrightarrow> keep i = Inr (Q (lo + i))
        \<and> typed_store (getIndicesCtor st) (Some (int (lo + i))) = lo + i"
    proof (intro allI impI)
      fix i assume "0 \<le> i \<and> i < len"
      then have i: "i < cs" "a * cs + i < c" by (auto simp: len_def)
      then have "a * cs + i < rawCount st" using wf by (simp add: well_formed_def c_def)
      then have "typed_store (getIndicesCtor st) (Some (int (a * cs + i))) = a * cs + i"
        using wf by (rule typed_store_id [rotated])
      then show "keep i = Inr (Q (lo + i))
        \<and> typed_store (getIndicesCtor st) (Some (int (lo + i))) = lo + i"
        using keep i by (simp add: lo)
    qed
    from fast_inner_range [OF this, of ni off] show ?thesis by (simp add: mid)
  next
    case False
    then have "len = 0" "lo = c" "mid = c" by (simp_all add: len_def lo_def mid_def)
    then show ?thesis by simp
  qed
  have ih: "\<And>ni off. chunks_loop st header [Suc a..<n] (ni, off, mid)
    = Inr (blit ni off (filter Q [mid..<hi]), off + length (filter Q [mid..<hi]), hi)"
    unfolding mid_def hi_def cs_def c_def
    using Suc.hyps(2) lt by (intro Suc.hyps(1)) auto
  have split: "[lo..<hi] = [lo..<mid] @ [mid..<hi]"
    using lo_mid mid_hi by (metis le_Suc_ex upt_add_eq_append)
  have "chunks_loop st header [a..<n] (ni, off, lo)
    = Inr (blit ni off (filter Q [lo..<hi]), off + length (filter Q [lo..<hi]), hi)"
    using lt inner ih
    by (simp add: upt_conv_Cons h nat_chunk_len len_def [symmetric] cs_def [symmetric]
        c_def [symmetric] split blit_append)
  then show ?case by (simp add: lo_def hi_def cs_def c_def)
qed

lemma selectRange_fast1_chunks_loop:
  "selectRange_fast1 st dimStorage lo hi ks s
     = chunks_loop st (fast1_header dimStorage lo hi) ks s"
  by (induction ks arbitrary: s) (auto simp: fast1_header_def split: option.splits sum.splits)

lemma selectRange_fast2_chunks_loop:
  "selectRange_fast2 st dimStorage dimStorage2 lo hi lo2 hi2 ks s
     = chunks_loop st (fast2_header dimStorage dimStorage2 lo hi lo2 hi2) ks s"
  by (induction ks arbitrary: s) (auto simp: fast2_header_def split: option.splits sum.splits)

lemma raw_value_slot:
  assumes "chunks_ok st chunks" and "0 < chunkSize st" and "i < chunkSize st"
    and "k * chunkSize st + i < rawCount st"
  shows "array_read chunks k = Some (chunks ! k)"
    and "chunk_read (chunks ! k) i = raw_value st chunks (k * chunkSize st + i)"
proof -
  have d: "(k * chunkSize st + i) div chunkSize st = k" using assms(2,3) by simp
  have m: "(k * chunkSize st + i) mod chunkSize st = i" using assms(3) by simp
  have "(k * chunkSize st + i) div chunkSize st < length chunks"
    using assms(1,4) by (simp add: chunks_ok_def)
  then show "array_read chunks k = Some (chunks ! k)" by (simp add: d array_read_def)
  show "chunk_read (chunks ! k) i = raw_value st chunks (k * chunkSize st + i)"
    unfolding raw_value_def d m by (rule refl)
qed

lemma map_nth_filter: "map ((!) xs) (filter (\<lambda>i. Q (xs ! i)) [0..<length xs]) = filter Q xs"
proof -
  have "filter Q (map ((!) xs) [0..<length xs]) = map ((!) xs) (filter (Q \<circ> (!) xs) [0..<length xs])"
    by (rule filter_map)
  then show ?thesis by (simp add: map_nth comp_def)
qed

lemma generic_path1_view:
  assumes wf: "well_formed st" and "storage st d = Some chunks" and "chunks_ok st chunks"
  shows "generic_path1 st d lo hi
    = Inr (blit (replicate (count st) 0) 0 (filter (\<lambda>r. in_range (raw_value st chunks r) lo hi) (view st)),
           length (filter (\<lambda>r. in_range (raw_value st chunks r) lo hi) (view st)))"
proof -
  define Q where "Q = (\<lambda>r. in_range (raw_value st chunks r) lo hi)"
  have "\<forall>i \<in> set [0..<count st]. i < count st
      \<and> selectRange_keep1 st d lo hi i (Some (int (view st ! i))) = Inr (Q (view st ! i))"
    using assms
    by (simp add: selectRange_keep1_def getFast_raw_value storage_ok_def view_less_rawCount Q_def)
  from rows_loop_view [where keep = "selectRange_keep1 st d lo hi"
      and P = "\<lambda>i. Q (view st ! i)", OF wf this]
  have "generic_path1 st d lo hi
    = Inr (blit (replicate (count st) 0) 0
             (map ((!) (view st)) (filter (\<lambda>i. Q (view st ! i)) [0..<count st])),
           length (filter (\<lambda>i. Q (view st ! i)) [0..<count st]))"
    by (simp add: generic_path1_def)
  moreover have "map ((!) (view st)) (filter (\<lambda>i. Q (view st ! i)) [0..<count st])
      = filter Q (view st)"
    using map_nth_filter [of "view st" Q] by (simp add: length_view [OF wf])
  moreover have "length (filter (\<lambda>i. Q (view st ! i)) [0..<count st]) = length (filter Q (view st))"
    using calculation(2) by (metis length_map)
  ultimately show ?thesis by (simp add: Q_def)
qed

lemma fast_path1_view:
  assumes wf: "well_formed st" and none: "indices st = None"
    and "storage st d = Some chunks" and "chunks_ok st chunks"
  shows "fast_path1 st d lo hi
    = Inr (blit (replicate (count st) 0) 0 (filter (\<lambda>r. in_range (raw_value st chunks r) lo hi) (view st)),
           length (filter (\<lambda>r. in_range (raw_value st chunks r) lo hi) (view st)))"
proof -
  define Q where "Q = (\<lambda>r. in_range (raw_value st chunks r) lo hi)"
  have cs: "0 < chunkSize st" and raw: "count st = rawCount st"
    and cover: "count st \<le> chunkCount st * chunkSize st"
    using wf none by (simp_all add: well_formed_def)
  have "\<forall>k < chunkCount st. \<exists>keep. fast1_header (Some chunks) lo hi k = Inr keep
        \<and> (\<forall>i < chunkSize st. k * chunkSize st + i < count st
              \<longrightarrow> keep i = Inr (Q (k * chunkSize st + i)))"
    using raw_value_slot [OF assms(4) cs] by (simp add: fast1_header_def raw Q_def)
  from chunks_loop_range [OF wf this, of 0 "replicate (count st) 0" 0]
  have "chunks_loop st (fast1_header (Some chunks) lo hi) [0..<chunkCount st]
      (replicate (count st) 0, 0, 0)
    = Inr (blit (replicate (count st) 0) 0 (filter Q [0..<count st]),
           length (filter Q [0..<count st]), count st)"
    using cover by (simp add: min_absorb2)
  moreover have "view st = [0..<count st]" using none by (simp add: view_def)
  ultimately show ?thesis
    using assms(3) by (simp add: fast_path1_def dim_store_own selectRange_fast1_chunks_loop Q_def)
qed

lemma read_chunked_no_chunks: "read_chunked cs [] r = Inl TypeError"
  by (simp add: read_chunked_def array_read_def split: option.splits)

lemma getFast_absent: "storage st d = None \<Longrightarrow> getFast st d r = Inl TypeError"
  by (simp add: getFast_def dim_store_def read_chunked_no_chunks)

lemma paths_absent_dimension:
  assumes wf: "well_formed st" and none: "indices st = None" and pos: "0 < count st"
    and absent: "storage st d = None"
  shows "fast_path1 st d lo hi = Inl TypeError" and "generic_path1 st d lo hi = Inl TypeError"
proof -
  have "0 < chunkCount st"
    using wf pos by (cases "chunkCount st") (simp_all add: well_formed_def)
  then have l0: "[0..<chunkCount st] = 0 # [Suc 0..<chunkCount st]" by (rule upt_conv_Cons)
  have "0 < nat (chunk_len st 0)"
    using wf pos by (simp add: chunk_len_def well_formed_def)
  then have l1: "[0..<nat (chunk_len st 0)] = 0 # [Suc 0..<nat (chunk_len st 0)]"
    by (rule upt_conv_Cons)
  show "fast_path1 st d lo hi = Inl TypeError"
    by (cases "d \<in> set proto_keys")
      (simp_all add: fast_path1_def dim_store_def absent l0 l1 array_read_def)
  have l: "[0..<count st] = 0 # [Suc 0..<count st]" using pos by (rule upt_conv_Cons)
  have "getRawIndex st (int 0) = Inr (Some (int (view st ! 0)))"
    using wf pos by (rule getRawIndex_view)
  then show "generic_path1 st d lo hi = Inl TypeError"
    by (simp add: generic_path1_def l selectRange_keep1_def getFast_absent [OF absent])
qed

lemma selectRange_one_dimension:
  "0 < count st \<Longrightarrow>
     selectRange st [(d, lo, hi)]
       = (case (if indices st = None then fast_path1 st d lo hi else generic_path1 st d lo hi) of
            Inl e \<Rightarrow> Inl e
          | Inr (newIndices, offset) \<Rightarrow> Inr (set_indices st (count st) newIndices offset))"
  by (simp add: selectRange_def fast_path1_def generic_path1_def Let_def)

lemma filter_same_length: "length (filter P xs) = length xs \<Longrightarrow> filter P xs = xs"
proof (induction xs)
  case Nil
  then show ?case by simp
next
  case (Cons x xs)
  show ?case
  proof (cases "P x")
    case True
    with Cons show ?thesis by simp
  next
    case False
    then have "length (filter P xs) = Suc (length xs)" using Cons.prems by simp
    moreover have "length (filter P xs) \<le> length xs" by (rule length_filter_le)
    ultimately show ?thesis by linarith
  qed
qed

lemma selectRange_one_dimension_view:
  assumes wf: "well_formed st" and "storage st d = Some chunks" and "chunks_ok st chunks"
    and run: "selectRange st [(d, lo, hi)] = Inr st'"
  shows "view st' = filter (\<lambda>r. in_range (raw_value st chunks r) lo hi) (view st)"
proof (cases "count st = 0")
  case True
  then have "st' = st" using run by (simp add: selectRange_def)
  moreover have "view st = []" using True by (simp add: view_def split: option.splits)
  ultimately show ?thesis by simp
next
  case False
  define vs where "vs = filter (\<lambda>r. in_range (raw_value st chunks r) lo hi) (view st)"
  define path where
    "path = (if indices st = None then fast_path1 st d lo hi else generic_path1 st d lo hi)"
  have path: "path = Inr (blit (replicate (count st) 0) 0 vs, length vs)"
  proof (cases "indices st = None")
    case True
    then show ?thesis
      unfolding path_def vs_def using fast_path1_view [OF wf True assms(2,3)] by simp
  next
    case False
    then show ?thesis
      unfolding path_def vs_def using generic_path1_view [OF wf assms(2,3)] by auto
  qed
  have "selectRange st [(d, lo, hi)]
      = (case path of Inl e \<Rightarrow> Inl e
         | Inr (newIndices, offset) \<Rightarrow> Inr (set_indices st (count st) newIndices offset))"
    unfolding path_def using False by (intro selectRange_one_dimension) simp
  then have st': "st' = set_indices st (count st) (blit (replicate (count st) 0) 0 vs) (length vs)"
    using run by (simp add: path)
  have len: "length vs \<le> count st"
    unfolding vs_def using length_filter_le [of _ "view st"] by (simp add: length_view [OF wf])
  have v: "view st' = (if length vs < count st then vs else view st)"
    unfolding st' using view_set_indices [OF len, of st] by simp
  have e: "length vs = count st \<longrightarrow> vs = view st"
    unfolding vs_def using length_view [OF wf] by (simp add: filter_same_length)
  have "view st' = vs"
  proof (cases "length vs < count st")
    case True
    then show ?thesis using v by simp
  next
    case False
    then have "length vs = count st" using len by simp
    then show ?thesis using v e by simp
  qed
  then show ?thesis unfolding vs_def .
qed

lemma selectRange_one_dimension_returns:
  assumes wf: "well_formed st" and "storage st d = Some chunks" and "chunks_ok st chunks"
  shows "\<exists>st'. selectRange st [(d, lo, hi)] = Inr st'"
proof (cases "count st = 0")
  case True
  then show ?thesis by (simp add: selectRange_def)
next
  case False
  have "\<exists>p. (if indices st = None then fast_path1 st d lo hi else generic_path1 st d lo hi)
      = Inr p"
    using fast_path1_view [OF wf _ assms(2,3)] generic_path1_view [OF wf assms(2,3)] by simp
  then show ?thesis
    using False by (auto simp: selectRange_one_dimension)
qed

section \<open>The view after filterSelf and selectRange\<close>

lemma rows_loop_result:
  assumes wf: "well_formed st"
    and loop: "rows_loop st keep [0..<count st] (replicate (count st) 0, 0) = Inr (ni, off)"
  shows "\<exists>P. ni = blit (replicate (count st) 0) 0 (map ((!) (view st)) (filter P [0..<count st]))
           \<and> off = length (filter P [0..<count st])"
proof -
  define P where "P = (\<lambda>i. case getRawIndex st (int i) of
              Inl e \<Rightarrow> False
            | Inr rawIdx \<Rightarrow> (case keep i rawIdx of Inl e \<Rightarrow> False | Inr k \<Rightarrow> k))"
  have "\<forall>i \<in> set [0..<count st]. \<exists>r b. getRawIndex st (int i) = Inr r \<and> keep i r = Inr b"
    using loop by (rule rows_loop_succeeds)
  then have "\<forall>i \<in> set [0..<count st].
      i < count st \<and> keep i (Some (int (view st ! i))) = Inr (P i)"
    using wf by (auto simp: P_def getRawIndex_view)
  from rows_loop_view [where keep = keep and P = P, OF wf this, of "replicate (count st) 0" 0]
  have "ni = blit (replicate (count st) 0) 0 (map ((!) (view st)) (filter P [0..<count st]))
           \<and> off = length (filter P [0..<count st])"
    using loop by simp
  then show ?thesis by (rule exI [of _ P])
qed

lemma chunks_loop_result:
  assumes wf: "well_formed st" and none: "indices st = None"
    and loop: "chunks_loop st header [0..<chunkCount st] (replicate (count st) 0, 0, 0)
                 = Inr (ni, off, idx)"
  shows "\<exists>P. ni = blit (replicate (count st) 0) 0 (map ((!) (view st)) (filter P [0..<count st]))
           \<and> off = length (filter P [0..<count st])"
proof -
  define cs where "cs = chunkSize st"
  define Q where "Q = (\<lambda>r. case header (r div cs) of
              Inl e \<Rightarrow> False
            | Inr keep \<Rightarrow> (case keep (r mod cs) of Inl e \<Rightarrow> False | Inr b \<Rightarrow> b))"
  have cs: "0 < cs" and cover: "count st \<le> chunkCount st * cs"
    using wf none by (simp_all add: well_formed_def cs_def)
  have ok: "\<forall>k \<in> set [0..<chunkCount st]. \<exists>keep. header k = Inr keep
        \<and> (\<forall>i \<in> set [0..<nat (chunk_len st k)]. \<exists>b. keep i = Inr b)"
    using loop by (rule chunks_loop_succeeds)
  have "\<forall>k < chunkCount st. \<exists>keep. header k = Inr keep
        \<and> (\<forall>i < chunkSize st. k * chunkSize st + i < count st
              \<longrightarrow> keep i = Inr (Q (k * chunkSize st + i)))"
  proof (intro allI impI)
    fix k assume "k < chunkCount st"
    then have "\<exists>keep. header k = Inr keep
        \<and> (\<forall>i \<in> set [0..<nat (chunk_len st k)]. \<exists>b. keep i = Inr b)"
      using ok by simp
    then obtain keep where h: "header k = Inr keep"
      and b: "\<forall>i \<in> set [0..<nat (chunk_len st k)]. \<exists>b. keep i = Inr b"
      by blast
    have "\<forall>i < cs. k * cs + i < count st \<longrightarrow> keep i = Inr (Q (k * cs + i))"
    proof (intro allI impI)
      fix i assume i: "i < cs" and r: "k * cs + i < count st"
      then have "i < nat (chunk_len st k)" by (simp add: nat_chunk_len cs_def)
      then have "\<exists>b. keep i = Inr b" using b by simp
      then obtain b where "keep i = Inr b" by blast
      moreover have "(k * cs + i) div cs = k" "(k * cs + i) mod cs = i" using i by simp_all
      ultimately show "keep i = Inr (Q (k * cs + i))" by (simp add: Q_def h)
    qed
    then show "\<exists>keep. header k = Inr keep
        \<and> (\<forall>i < chunkSize st. k * chunkSize st + i < count st
              \<longrightarrow> keep i = Inr (Q (k * chunkSize st + i)))"
      using h unfolding cs_def by blast
  qed
  from chunks_loop_range [OF wf this, of 0 "replicate (count st) 0" 0]
  have res: "ni = blit (replicate (count st) 0) 0 (filter Q [0..<count st])
      \<and> off = length (filter Q [0..<count st])"
    using cover loop by (simp add: min_absorb2 cs_def)
  have "view st = [0..<count st]" using none by (simp add: view_def)
  then have "map ((!) (view st)) (filter Q [0..<count st]) = filter Q [0..<count st]"
    by (intro map_idI) simp
  then have "ni = blit (replicate (count st) 0) 0 (map ((!) (view st)) (filter Q [0..<count st]))
           \<and> off = length (filter Q [0..<count st])"
    using res by simp
  then show ?thesis by (rule exI [of _ Q])
qed

lemma selectRange_paths:
  assumes pos: "0 < count st" and ne: "rng \<noteq> []" and run: "selectRange st rng = Inr st'"
  shows "\<exists>ni off. st' = set_indices st (count st) ni off
    \<and> ((indices st = None
         \<and> (\<exists>header idx. chunks_loop st header [0..<chunkCount st]
                               (replicate (count st) 0, 0, 0) = Inr (ni, off, idx)))
        \<or> (\<exists>keep. rows_loop st keep [0..<count st] (replicate (count st) 0, 0) = Inr (ni, off)))"
proof -
  consider (fast1) "indices st = None" "length rng = 1"
    | (fast2) "indices st = None" "length rng \<noteq> 1" "length rng = 2"
    | (gen1) "\<not> (indices st = None \<and> length rng = 1)"
        "\<not> (indices st = None \<and> length rng = 2)" "length rng = 1"
    | (genN) "\<not> (indices st = None \<and> length rng = 1)"
        "\<not> (indices st = None \<and> length rng = 2)" "length rng \<noteq> 1"
    by (cases "indices st = None"; cases "length rng = 1"; cases "length rng = 2"; simp)
  then show ?thesis
  proof cases
    case fast1
    then obtain ni off idx where
      "chunks_loop st (fast1_header (dim_store st (fst (rng ! 0))) (fst (snd (rng ! 0)))
          (snd (snd (rng ! 0)))) [0..<chunkCount st] (replicate (count st) 0, 0, 0)
        = Inr (ni, off, idx)"
      and "st' = set_indices st (count st) ni off"
      using run pos ne
      by (auto simp: selectRange_def Let_def selectRange_fast1_chunks_loop split: sum.splits)
    then show ?thesis using fast1 by blast
  next
    case fast2
    then obtain ni off idx where
      "chunks_loop st (fast2_header (dim_store st (fst (rng ! 0))) (dim_store st (fst (rng ! 1)))
          (fst (snd (rng ! 0))) (snd (snd (rng ! 0))) (fst (snd (rng ! 1)))
          (snd (snd (rng ! 1)))) [0..<chunkCount st] (replicate (count st) 0, 0, 0)
        = Inr (ni, off, idx)"
      and "st' = set_indices st (count st) ni off"
      using run pos ne
      by (auto simp: selectRange_def Let_def selectRange_fast2_chunks_loop split: sum.splits)
    then show ?thesis using fast2 by blast
  next
    case gen1
    then obtain ni off where
      "rows_loop st (selectRange_keep1 st (fst (rng ! 0)) (fst (snd (rng ! 0)))
          (snd (snd (rng ! 0)))) [0..<count st] (replicate (count st) 0, 0) = Inr (ni, off)"
      and "st' = set_indices st (count st) ni off"
      using run pos ne
      by (auto simp: selectRange_def Let_def split: sum.splits)
    then show ?thesis by blast
  next
    case genN
    then obtain ni off where
      "rows_loop st (\<lambda>i rawIndex. selectRange_keepN st rng rawIndex True)
          [0..<count st] (replicate (count st) 0, 0) = Inr (ni, off)"
      and "st' = set_indices st (count st) ni off"
      using run pos ne
      by (auto simp: selectRange_def Let_def split: sum.splits)
    then show ?thesis by blast
  qed
qed

lemma selectRange_result:
  assumes wf: "well_formed st" and run: "selectRange st rng = Inr st'"
  shows "st' = st
    \<or> (\<exists>P. st' = set_indices st (count st)
                  (blit (replicate (count st) 0) 0 (map ((!) (view st)) (filter P [0..<count st])))
                  (length (filter P [0..<count st])))"
proof (cases "count st = 0 \<or> rng = []")
  case True
  then have "st' = st" using run by (auto simp: selectRange_def split: if_splits)
  then show ?thesis by simp
next
  case False
  then have "0 < count st" "rng \<noteq> []" by simp_all
  from selectRange_paths [OF this run]
  obtain ni off where st': "st' = set_indices st (count st) ni off"
    and paths: "(indices st = None
         \<and> (\<exists>header idx. chunks_loop st header [0..<chunkCount st]
                               (replicate (count st) 0, 0, 0) = Inr (ni, off, idx)))
        \<or> (\<exists>keep. rows_loop st keep [0..<count st] (replicate (count st) 0, 0) = Inr (ni, off))"
    by blast
  have "\<exists>P. ni = blit (replicate (count st) 0) 0 (map ((!) (view st)) (filter P [0..<count st]))
           \<and> off = length (filter P [0..<count st])"
    using paths chunks_loop_result [OF wf] rows_loop_result [OF wf] by blast
  then show ?thesis using st' by blast
qed

lemma filterSelf_result':
  assumes wf: "well_formed st" and run: "filterSelf st dimNames cb = Inr st'"
  shows "st' = st
    \<or> (\<exists>P. st' = set_indices st (count st)
                  (blit (replicate (count st) 0) 0 (map ((!) (view st)) (filter P [0..<count st])))
                  (length (filter P [0..<count st])))"
proof (cases "count st = 0")
  case True
  then have "st' = st" using run by (simp add: filterSelf_def)
  then show ?thesis by simp
next
  case False
  then obtain ni off where st': "st' = set_indices st (count st) ni off"
    and "rows_loop st (filterSelf_keep st dimNames cb) [0..<count st]
           (replicate (count st) 0, 0) = Inr (ni, off)"
    using run by (auto simp: filterSelf_def split: sum.splits)
  then have "\<exists>P. ni = blit (replicate (count st) 0) 0 (map ((!) (view st)) (filter P [0..<count st]))
           \<and> off = length (filter P [0..<count st])"
    using rows_loop_result [OF wf] by blast
  then show ?thesis using st' by blast
qed

lemma narrowed_store:
  assumes wf: "well_formed st"
    and shape: "st' = st
      \<or> (\<exists>P. st' = set_indices st (count st)
                  (blit (replicate (count st) 0) 0 (map ((!) (view st)) (filter P [0..<count st])))
                  (length (filter P [0..<count st])))"
  shows "well_formed st'" and "subseq (view st') (view st)"
    and "storage st' = storage st \<and> rawExtent st' = rawExtent st \<and> heap st' = heap st
      \<and> rawCount st' = rawCount st \<and> chunkSize st' = chunkSize st
      \<and> idList st' = idList st \<and> idDimIdx st' = idDimIdx st
      \<and> dimensions st' = dimensions st \<and> ordinalCategories st' = ordinalCategories st"
proof -
  have "well_formed st' \<and> subseq (view st') (view st)
      \<and> storage st' = storage st \<and> rawExtent st' = rawExtent st \<and> heap st' = heap st
      \<and> rawCount st' = rawCount st \<and> chunkSize st' = chunkSize st
      \<and> idList st' = idList st \<and> idDimIdx st' = idDimIdx st
      \<and> dimensions st' = dimensions st \<and> ordinalCategories st' = ordinalCategories st"
  proof (cases "st' = st")
    case True
    then show ?thesis using wf by simp
  next
    case False
    then obtain P where st': "st' = set_indices st (count st)
        (blit (replicate (count st) 0) 0 (map ((!) (view st)) (filter P [0..<count st])))
        (length (filter P [0..<count st]))"
      using shape by blast
    define vs where "vs = map ((!) (view st)) (filter P [0..<count st])"
    have st'': "st' = set_indices st (count st) (blit (replicate (count st) 0) 0 vs) (length vs)"
      using st' by (simp add: vs_def)
    have len: "length vs \<le> count st"
      unfolding vs_def using length_filter_le [of P "[0..<count st]"] by simp
    have lt: "\<forall>v \<in> set vs. v < rawCount st"
      using wf by (auto simp: vs_def view_less_rawCount)
    have w: "well_formed st'"
      unfolding st'' using wf len lt by (rule set_indices_well_formed)
    have sub: "subseq vs (view st)"
      unfolding vs_def using subseq_map_nth_filter [of "view st" P]
      by (simp add: length_view [OF wf])
    have v: "view st' = (if length vs < count st then vs else view st)"
      unfolding st'' using view_set_indices [OF len, of st] by simp
    have s: "subseq (view st') (view st)"
    proof (cases "length vs < count st")
      case True
      then show ?thesis using v sub by simp
    next
      case False
      then show ?thesis using v by simp
    qed
    have f: "storage st' = storage st" "rawExtent st' = rawExtent st" "heap st' = heap st"
      "rawCount st' = rawCount st" "chunkSize st' = chunkSize st"
      "idList st' = idList st" "idDimIdx st' = idDimIdx st"
      "dimensions st' = dimensions st" "ordinalCategories st' = ordinalCategories st"
      unfolding st'' by (rule set_indices_frame)+
    show ?thesis using w s f by blast
  qed
  then show "well_formed st'" and "subseq (view st') (view st)"
    and "storage st' = storage st \<and> rawExtent st' = rawExtent st \<and> heap st' = heap st
      \<and> rawCount st' = rawCount st \<and> chunkSize st' = chunkSize st
      \<and> idList st' = idList st \<and> idDimIdx st' = idDimIdx st
      \<and> dimensions st' = dimensions st \<and> ordinalCategories st' = ordinalCategories st"
    by simp_all
qed

lemma selectRange_well_formed:
  assumes "well_formed st" and "selectRange st rng = Inr st'"
  shows "well_formed st'"
  using assms(1) selectRange_result [OF assms] by (rule narrowed_store(1))

section \<open>The two paths of selectRange over one dimension\<close>

text \<open>
  C2. On a well-formed store whose stored dimensions are chunked as the store says:
  with no index array and at least one row, the chunk-wise fast path of \<open>selectRange\<close>
  over one dimension computes the same index array and the same count as the generic
  per-row loop does (both throw when the dimension has no storage), and \<open>selectRange\<close>
  returns what the generic loop's result gives; and for a stored dimension, with or
  without an index array, \<open>selectRange\<close> returns, the view afterwards is the old view
  restricted to the rows whose value lies within the bounds or is NaN, in the old
  order, so a visible row whose value is NaN stays visible whatever the bounds.
\<close>

theorem selectRange_fast_path_agrees:
  assumes "well_formed st" and "storage_ok st d"
  shows "(indices st = None \<and> 0 < count st \<longrightarrow>
            fast_path1 st d lo hi = generic_path1 st d lo hi
            \<and> selectRange st [(d, lo, hi)]
               = (case generic_path1 st d lo hi of
                    Inl e \<Rightarrow> Inl e
                  | Inr (newIndices, offset) \<Rightarrow>
                      Inr (set_indices st (count st) newIndices offset)))
    \<and> (\<forall>chunks. storage st d = Some chunks \<longrightarrow>
          (\<exists>st'. selectRange st [(d, lo, hi)] = Inr st'
             \<and> view st' = filter (\<lambda>r. in_range (raw_value st chunks r) lo hi) (view st)
             \<and> count st' = length (view st')
             \<and> (\<forall>r \<in> set (view st). isNaN (raw_value st chunks r) \<longrightarrow> r \<in> set (view st'))))"
proof (intro conjI impI allI)
  assume a: "indices st = None \<and> 0 < count st"
  show eq: "fast_path1 st d lo hi = generic_path1 st d lo hi"
  proof (cases "storage st d")
    case None
    then show ?thesis using paths_absent_dimension [OF assms(1)] a by simp
  next
    case (Some chunks)
    then have "chunks_ok st chunks" using assms(2) by (simp add: storage_ok_def)
    then show ?thesis
      using fast_path1_view [OF assms(1) _ Some] generic_path1_view [OF assms(1) Some] a by simp
  qed
  show "selectRange st [(d, lo, hi)]
      = (case generic_path1 st d lo hi of
           Inl e \<Rightarrow> Inl e
         | Inr (newIndices, offset) \<Rightarrow> Inr (set_indices st (count st) newIndices offset))"
    using a eq by (simp add: selectRange_one_dimension)
next
  fix chunks
  assume s: "storage st d = Some chunks"
  then have ok: "chunks_ok st chunks" using assms(2) by (simp add: storage_ok_def)
  obtain st' where run: "selectRange st [(d, lo, hi)] = Inr st'"
    using selectRange_one_dimension_returns [OF assms(1) s ok] by blast
  have v: "view st' = filter (\<lambda>r. in_range (raw_value st chunks r) lo hi) (view st)"
    using assms(1) s ok run by (rule selectRange_one_dimension_view)
  have "well_formed st'" using assms(1) run by (rule selectRange_well_formed)
  then have c: "count st' = length (view st')" by (simp add: length_view)
  have n: "\<forall>r \<in> set (view st). isNaN (raw_value st chunks r) \<longrightarrow> r \<in> set (view st')"
    unfolding v by (simp add: in_range_def)
  show "\<exists>st'. selectRange st [(d, lo, hi)] = Inr st'
             \<and> view st' = filter (\<lambda>r. in_range (raw_value st chunks r) lo hi) (view st)
             \<and> count st' = length (view st')
             \<and> (\<forall>r \<in> set (view st). isNaN (raw_value st chunks r) \<longrightarrow> r \<in> set (view st'))"
    using run v c n by blast
qed

theorem selectRange_fast_path_agrees_witness:
  "fast_path1 xy_chunked ''y'' (Fin 5) (Fin 15) = generic_path1 xy_chunked ''y'' (Fin 5) (Fin 15)
   \<and> (\<exists>st'. selectRange xy_chunked [(''y'', Fin 5, Fin 15)] = Inr st'
         \<and> view st' = [0, 1] \<and> count st' = 2)"
proof -
  have wf: "well_formed xy_chunked"
    by (simp add: well_formed_def xy_chunked_def xy_store_def)
  have ok: "storage_ok xy_chunked ''y''"
    by (simp add: storage_ok_def chunks_ok_def xy_chunked_def xy_store_def upt_rec)
  note inst = selectRange_fast_path_agrees [OF wf ok, of "Fin 5" "Fin 15"]
  have pre: "indices xy_chunked = None \<and> 0 < count xy_chunked"
    by (simp add: xy_chunked_def xy_store_def)
  have 1: "fast_path1 xy_chunked ''y'' (Fin 5) (Fin 15)
      = generic_path1 xy_chunked ''y'' (Fin 5) (Fin 15)"
    using inst pre by blast
  have s: "storage xy_chunked ''y'' = Some [[Fin 10, NaN], [Fin 30]]"
    by (simp add: xy_chunked_def xy_store_def)
  have f: "filter (\<lambda>r. in_range (raw_value xy_chunked [[Fin 10, NaN], [Fin 30]] r) (Fin 5) (Fin 15))
      (view xy_chunked) = [0, 1]"
    by (simp add: view_def in_range_def js_ge_def js_le_def raw_value_def chunk_read_def
        xy_chunked_def xy_store_def upt_rec)
  have "\<exists>st'. selectRange xy_chunked [(''y'', Fin 5, Fin 15)] = Inr st'
      \<and> view st' = filter (\<lambda>r. in_range (raw_value xy_chunked [[Fin 10, NaN], [Fin 30]] r)
                              (Fin 5) (Fin 15)) (view xy_chunked)
      \<and> count st' = length (view st')"
    using inst s by blast
  then have "\<exists>st'. selectRange xy_chunked [(''y'', Fin 5, Fin 15)] = Inr st'
      \<and> view st' = [0, 1] \<and> count st' = 2"
    unfolding f by auto
  then show ?thesis using 1 by blast
qed

lemma filterSelf_view:
  assumes wf: "well_formed st" and run: "filterSelf st dimNames cb = Inr st'"
  shows "view st' = map ((!) (view st)) (filterSelf_retained st dimNames cb)"
proof (cases "count st = 0")
  case True
  then have "st' = st" using run by (simp add: filterSelf_def)
  moreover have "filterSelf_retained st dimNames cb = []"
    using True by (simp add: filterSelf_retained_def)
  moreover have "view st = []" using length_view [OF wf] True by simp
  ultimately show ?thesis by simp
next
  case False
  define kept where "kept = filterSelf_retained st dimNames cb"
  define vs where "vs = map ((!) (view st)) kept"
  have len: "length vs \<le> count st"
    unfolding vs_def kept_def using filterSelf_retained_length [of st dimNames cb] by simp
  have "st' = set_indices st (count st) (blit (replicate (count st) 0) 0 vs) (length vs)"
    using filterSelf_result [OF wf run] False by (simp add: kept_def vs_def)
  then have v: "view st' = (if length vs < count st then vs else view st)"
    using view_set_indices [OF len, of st] by simp
  have "view st' = vs"
  proof (cases "length vs < count st")
    case True
    then show ?thesis using v by simp
  next
    case False
    then have "length kept = length [0..<count st]" using len by (simp add: vs_def)
    then have "kept = [0..<count st]"
      unfolding kept_def filterSelf_retained_def by (rule filter_same_length)
    then have "vs = map ((!) (view st)) [0..<length (view st)]"
      by (simp add: vs_def length_view [OF wf])
    then have "vs = view st" by (simp only: map_nth)
    then show ?thesis using v by simp
  qed
  then show ?thesis by (simp add: vs_def kept_def)
qed

section \<open>getId\<close>

lemma getId_view:
  "well_formed st \<Longrightarrow> i < count st \<Longrightarrow> getId st (int i) = getId_raw st (Some (int (view st ! i)))"
  by (simp add: getId_def getRawIndex_view)

lemma getId_raw_frame:
  assumes "storage st' = storage st" and "chunkSize st' = chunkSize st"
    and "idList st' = idList st" and "idDimIdx st' = idDimIdx st"
    and "dimensions st' = dimensions st" and "ordinalCategories st' = ordinalCategories st"
  shows "getId_raw st' r = getId_raw st r"
  unfolding getId_raw_def getRawValueFromStore_def dim_store_def assms by (rule refl)

text \<open>
  C9. A \<open>filterSelf\<close> or \<open>selectRange\<close> call on a well-formed store leaves the id
  list as it was; every row visible afterwards was visible before (its raw position is
  at some old logical position), and \<open>getId\<close> at the new logical position of a row
  returns what \<open>getId\<close> returned at its old logical position before the call.
\<close>

theorem getId_stable_across_filtering:
  assumes "well_formed st"
    and "filterSelf st dimNames cb = Inr st' \<or> selectRange st rng = Inr st'"
  shows "idList st' = idList st
    \<and> (\<forall>j < count st'. \<exists>i < count st. view st ! i = view st' ! j)
    \<and> (\<forall>j < count st'. \<forall>i < count st.
          view st' ! j = view st ! i \<longrightarrow> getId st' (int j) = getId st (int i))"
proof -
  have shape: "st' = st
      \<or> (\<exists>P. st' = set_indices st (count st)
                  (blit (replicate (count st) 0) 0 (map ((!) (view st)) (filter P [0..<count st])))
                  (length (filter P [0..<count st])))"
    using assms filterSelf_result' selectRange_result by blast
  note facts = narrowed_store [OF assms(1) shape]
  have raw: "\<And>r. getId_raw st' r = getId_raw st r"
    using facts(3) by (intro getId_raw_frame) simp_all
  have "set (view st') \<subseteq> set (view st)"
    using facts(2) by (auto dest: list_emb_set)
  then have 1: "\<forall>j < count st'. \<exists>i < count st. view st ! i = view st' ! j"
    using length_view [OF assms(1)] length_view [OF facts(1)]
    by (metis in_set_conv_nth subsetD)
  have 2: "\<forall>j < count st'. \<forall>i < count st.
          view st' ! j = view st ! i \<longrightarrow> getId st' (int j) = getId st (int i)"
    using getId_view [OF assms(1)] getId_view [OF facts(1)] raw by simp
  have 3: "idList st' = idList st" using facts(3) by simp
  show ?thesis using 1 2 3 by blast
qed

theorem getId_stable_across_filtering_witness:
  "\<exists>st'. filterSelf xy_store [''x''] (\<lambda>vs i. vs ! 0 \<noteq> Fin 2) = Inr st'
     \<and> count st' = 2 \<and> view st' = [0, 2]
     \<and> getId st' 0 = getId xy_store 0 \<and> getId st' 1 = getId xy_store 2
     \<and> getId st' 1 = Inr (IdStr (ID_PREFIX @ ''2''))"
proof -
  define cb where "cb = (\<lambda>vs (i :: nat). vs ! 0 \<noteq> Fin 2)"
  have wf: "well_formed xy_store" by (simp add: well_formed_def xy_store_def)
  have "\<exists>dimStore. storage xy_store ([''x''] ! 0) = Some dimStore \<and> chunks_ok xy_store dimStore"
    by (simp add: xy_store_def chunks_ok_def upt_rec)
  then obtain st' where run: "filterSelf xy_store [''x''] cb = Inr st'"
    using filterSelf_returns [OF wf] by blast
  have kept: "filterSelf_retained xy_store [''x''] cb = [0, 2]"
    by (simp add: filterSelf_retained_def filterSelf_keep_def filterSelf_args_def cb_def
        xy_store_def read_defs upt_rec)
  have v: "view xy_store = [0, 1, 2]" by (simp add: view_def xy_store_def upt_rec)
  have v': "view st' = [0, 2]"
    using filterSelf_view [OF wf run] by (simp add: kept v)
  have c: "count xy_store = 3" by (simp add: xy_store_def)
  have "well_formed st'" using wf run by (rule filterSelf_well_formed)
  then have c': "count st' = 2" using length_view [of st'] v' by simp
  note inst = getId_stable_across_filtering [OF wf, of "[''x'']" cb st' "[]"]
  have same: "\<And>j i. j < count st' \<Longrightarrow> i < count xy_store \<Longrightarrow> view st' ! j = view xy_store ! i
      \<Longrightarrow> getId st' (int j) = getId xy_store (int i)"
    using inst run by blast
  have 0: "getId st' 0 = getId xy_store 0"
    using same [of 0 0] by (simp add: c c' v v')
  have 1: "getId st' 1 = getId xy_store 2"
    using same [of 1 2] by (simp add: c c' v v')
  have 2: "getId xy_store 2 = Inr (IdStr (ID_PREFIX @ ''2''))"
    by (simp add: getId_def getId_raw_def getRawValueFromStore_def prefixed_id_def
        string_of_int_def getRawIndex_def xy_store_def char_of_def bit_0)
  show ?thesis using run c' v' 0 1 2 unfolding cb_def by auto
qed

section \<open>What filtering leaves alone\<close>

lemma filterSelf_frame:
  assumes "filterSelf st dimNames cb = Inr st'"
  shows "storage st' = storage st \<and> rawExtent st' = rawExtent st \<and> heap st' = heap st
    \<and> (if count st = 0 then st' = st else extent st' = Map.empty)"
proof (cases "count st = 0")
  case True
  then show ?thesis using assms by (simp add: filterSelf_def)
next
  case False
  then obtain ni off where "st' = set_indices st (count st) ni off"
    using assms by (auto simp: filterSelf_def split: sum.splits)
  then show ?thesis using False by (simp add: set_indices_frame set_indices_fields)
qed

lemma selectRange_frame:
  assumes "selectRange st rng = Inr st'"
  shows "storage st' = storage st \<and> rawExtent st' = rawExtent st \<and> heap st' = heap st
    \<and> (if count st = 0 \<or> rng = [] then st' = st else extent st' = Map.empty)"
proof (cases "count st = 0 \<or> rng = []")
  case True
  then show ?thesis using assms by (auto simp: selectRange_def split: if_splits)
next
  case False
  then have "0 < count st" "rng \<noteq> []" by simp_all
  from selectRange_paths [OF this assms]
  obtain ni off where "st' = set_indices st (count st) ni off" by blast
  then show ?thesis using False by (simp add: set_indices_frame set_indices_fields)
qed

text \<open>
  C8. A \<open>filterSelf\<close> or \<open>selectRange\<close> call that returns leaves the chunks of every
  dimension, the raw extent of every dimension and the contents of every extent array
  as they were. It empties the view extent cache, except when it returns at its first
  guard (\<open>filterSelf\<close> and \<open>selectRange\<close> on a view without rows, \<open>selectRange\<close> with an
  empty range): then the whole store, the cache included, is as it was.
\<close>

theorem filtering_resets_extent_cache:
  "(filterSelf st dimNames cb = Inr st' \<longrightarrow>
      storage st' = storage st \<and> rawExtent st' = rawExtent st \<and> heap st' = heap st
      \<and> (if count st = 0 then st' = st else extent st' = Map.empty))
   \<and> (selectRange st rng = Inr st'' \<longrightarrow>
      storage st'' = storage st \<and> rawExtent st'' = rawExtent st \<and> heap st'' = heap st
      \<and> (if count st = 0 \<or> rng = [] then st'' = st else extent st'' = Map.empty))"
  using filterSelf_frame selectRange_frame by blast

theorem filtering_resets_extent_cache_witness:
  "extent xy_cached ''x'' = Some 3
   \<and> (\<exists>st'. filterSelf xy_cached [''x''] (\<lambda>vs i. vs ! 0 \<noteq> Fin 3) = Inr st'
          \<and> storage st' = storage xy_cached \<and> rawExtent st' = rawExtent xy_cached
          \<and> heap st' = heap xy_cached \<and> extent st' = Map.empty)
   \<and> (\<exists>st''. selectRange xy_cached [(''x'', Fin 0, Fin 2)] = Inr st''
          \<and> storage st'' = storage xy_cached \<and> rawExtent st'' = rawExtent xy_cached
          \<and> heap st'' = heap xy_cached \<and> extent st'' = Map.empty)"
proof -
  define cb where "cb = (\<lambda>vs (i :: nat). vs ! 0 \<noteq> Fin 3)"
  have wf: "well_formed xy_cached"
    by (simp add: well_formed_def xy_cached_def xy_filtered_def xy_store_def upt_rec)
  have s: "storage xy_cached ''x'' = Some [[Fin 1, Fin 2, Fin 3]]"
    by (simp add: xy_cached_def xy_filtered_def xy_store_def)
  have ok: "chunks_ok xy_cached [[Fin 1, Fin 2, Fin 3]]"
    by (simp add: chunks_ok_def xy_cached_def xy_filtered_def xy_store_def upt_rec)
  have c: "count xy_cached \<noteq> 0" by (simp add: xy_cached_def xy_filtered_def xy_store_def)
  have "\<exists>dimStore. storage xy_cached ([''x''] ! 0) = Some dimStore \<and> chunks_ok xy_cached dimStore"
    using s ok by simp
  then obtain st' where run: "filterSelf xy_cached [''x''] cb = Inr st'"
    using filterSelf_returns [OF wf] by blast
  obtain st'' where run2: "selectRange xy_cached [(''x'', Fin 0, Fin 2)] = Inr st''"
    using selectRange_one_dimension_returns [OF wf s ok] by blast
  note inst = filtering_resets_extent_cache
    [of xy_cached "[''x'']" cb st' "[(''x'', Fin 0, Fin 2)]" st'']
  have 1: "storage st' = storage xy_cached \<and> rawExtent st' = rawExtent xy_cached
          \<and> heap st' = heap xy_cached \<and> extent st' = Map.empty"
    using inst run c by simp
  have 2: "storage st'' = storage xy_cached \<and> rawExtent st'' = rawExtent xy_cached
          \<and> heap st'' = heap xy_cached \<and> extent st'' = Map.empty"
    using inst run2 c by simp
  have 0: "extent xy_cached ''x'' = Some 3" by (simp add: xy_cached_def)
  show ?thesis using 0 1 2 run run2 unfolding cb_def by blast
qed

theorem early_return_keeps_extent_cache:
  "filterSelf xy_store [''x''] (\<lambda>vs i. False) = Inr xy_hidden
   \<and> getDataExtent xy_hidden ''x'' = Inr (3, xy_hidden_cached)
   \<and> filterSelf xy_hidden_cached [''x''] (\<lambda>vs i. True) = Inr xy_hidden_cached
   \<and> selectRange xy_hidden_cached [(''x'', Fin 0, Fin 5)] = Inr xy_hidden_cached
   \<and> selectRange xy_cached [] = Inr xy_cached
   \<and> extent xy_hidden_cached ''x'' = Some 3 \<and> extent xy_cached ''x'' = Some 3"
proof -
  have 1: "filterSelf xy_store [''x''] (\<lambda>vs i. False) = Inr xy_hidden"
    by (simp add: filterSelf_def filterSelf_keep_def filterSelf_args_def set_indices_def
        getIndicesCtor_def typed_store_def xy_hidden_def xy_store_def read_defs upt_rec
        numeral_3_eq_3)
  have 2: "getDataExtent xy_hidden ''x'' = Inr (3, xy_hidden_cached)"
    by (simp add: getDataExtent_def new_pair_def getInitialExtent_def xy_hidden_cached_def
        xy_hidden_def xy_store_def read_defs numeral_3_eq_3)
  have 3: "filterSelf xy_hidden_cached [''x''] (\<lambda>vs i. True) = Inr xy_hidden_cached"
    by (simp add: filterSelf_def xy_hidden_cached_def xy_hidden_def xy_store_def)
  have 4: "selectRange xy_hidden_cached [(''x'', Fin 0, Fin 5)] = Inr xy_hidden_cached"
    by (simp add: selectRange_def xy_hidden_cached_def xy_hidden_def xy_store_def)
  have 5: "selectRange xy_cached [] = Inr xy_cached"
    by (simp add: selectRange_def)
  have 6: "extent xy_hidden_cached ''x'' = Some 3 \<and> extent xy_cached ''x'' = Some 3"
    by (simp add: xy_hidden_cached_def xy_cached_def)
  show ?thesis using 1 2 3 4 5 6 by simp
qed

section \<open>indexOfRawIndex\<close>





section \<open>getDataExtent\<close>

lemma js_le_refl: "\<not> isNaN a \<Longrightarrow> js_le a a"
  by (simp add: js_le_def)

lemma js_le_trans: "js_le a b \<Longrightarrow> js_le b c \<Longrightarrow> js_le a c"
  by (cases a; cases b; cases c) (auto simp: js_le_def)

lemma js_le_total: "\<not> isNaN a \<Longrightarrow> \<not> isNaN b \<Longrightarrow> js_lt a b \<or> js_le b a"
  by (cases a; cases b) (auto simp: js_le_def)

lemma js_lt_imp_le: "js_lt a b \<Longrightarrow> js_le a b"
  by (simp add: js_le_def)

lemma js_lt_not_NaN: "js_lt a b \<Longrightarrow> \<not> isNaN a \<and> \<not> isNaN b"
  by (cases a; cases b) auto

lemma js_le_PosInf: "\<not> isNaN a \<Longrightarrow> js_le a PosInf"
  by (cases a) (auto simp: js_le_def)

lemma js_le_NegInf: "\<not> isNaN a \<Longrightarrow> js_le NegInf a"
  by (cases a) (auto simp: js_le_def)

lemma extent_scan_foldl:
  assumes "\<forall>i \<in> set js. \<exists>r. getRawIndex st (int i) = Inr r \<and> getFast st d r = Inr (f i)"
  shows "extent_scan st d js p = Inr (foldl extent_step p (map f js))"
  using assms
proof (induction js arbitrary: p)
  case Nil
  then show ?case by (cases p) simp
next
  case (Cons i js)
  obtain lo hi where p: "p = (lo, hi)" by (cases p)
  from Cons.prems obtain r where r: "getRawIndex st (int i) = Inr r" "getFast st d r = Inr (f i)"
    by auto
  have ih: "extent_scan st d js (extent_step p (f i))
      = Inr (foldl extent_step (extent_step p (f i)) (map f js))"
    using Cons.prems by (intro Cons.IH) simp
  have e: "extent_scan st d (i # js) p = extent_scan st d js (extent_step p (f i))"
    by (simp add: p r extent_step_def)
  show ?case unfolding e using ih by simp
qed

lemma extent_scan_view:
  assumes wf: "well_formed st" and "storage st d = Some dimStore" and "chunks_ok st dimStore"
  shows "extent_scan st d [0..<count st] p = Inr (foldl extent_step p (view_values st dimStore))"
proof -
  have "\<forall>i \<in> set [0..<count st]. \<exists>r. getRawIndex st (int i) = Inr r
      \<and> getFast st d r = Inr (raw_value st dimStore (view st ! i))"
    using assms
    by (simp add: getRawIndex_view getFast_raw_value storage_ok_def view_less_rawCount)
  then have "extent_scan st d [0..<count st] p
      = Inr (foldl extent_step p (map (\<lambda>i. raw_value st dimStore (view st ! i)) [0..<count st]))"
    by (rule extent_scan_foldl)
  moreover have "map (\<lambda>i. raw_value st dimStore (view st ! i)) [0..<count st]
      = view_values st dimStore"
  proof -
    have "map (raw_value st dimStore) (map ((!) (view st)) [0..<length (view st)])
        = map (raw_value st dimStore) (view st)"
      by (simp only: map_nth)
    then show ?thesis by (simp add: view_values_def length_view [OF wf] comp_def)
  qed
  ultimately show ?thesis by simp
qed

lemma foldl_extent_step_bounds:
  assumes "\<forall>v \<in> set done. \<not> isNaN v \<longrightarrow> js_le (fst p) v \<and> js_le v (snd p)"
    and "\<not> isNaN (fst p)" and "\<not> isNaN (snd p)"
  shows "\<forall>v \<in> set (done @ vs). \<not> isNaN v \<longrightarrow>
      js_le (fst (foldl extent_step p vs)) v \<and> js_le v (snd (foldl extent_step p vs))"
  using assms
proof (induction vs arbitrary: p "done")
  case Nil
  then show ?case by simp
next
  case (Cons x vs)
  define q where "q = extent_step p x"
  have q1: "fst q = (if js_lt x (fst p) then x else fst p)"
    and q2: "snd q = (if js_gt x (snd p) then x else snd p)"
    by (simp_all add: q_def extent_step_def)
  have n: "\<not> isNaN (fst q)" "\<not> isNaN (snd q)"
    using Cons.prems(2,3) js_lt_not_NaN by (auto simp: q1 q2 js_gt_def)
  have lo: "js_le (fst q) (fst p)"
    using Cons.prems(2) by (auto simp: q1 js_lt_imp_le js_le_refl)
  have hi: "js_le (snd p) (snd q)"
    using Cons.prems(3) by (auto simp: q2 js_gt_def js_lt_imp_le js_le_refl)
  have x: "\<not> isNaN x \<longrightarrow> js_le (fst q) x \<and> js_le x (snd q)"
    using js_le_total [of x "fst p"] js_le_total [of "snd p" x] Cons.prems(2,3)
    by (auto simp: q1 q2 js_gt_def js_le_refl)
  have "\<forall>v \<in> set (done @ [x]). \<not> isNaN v \<longrightarrow> js_le (fst q) v \<and> js_le v (snd q)"
    using Cons.prems(1) lo hi x by (auto intro: js_le_trans)
  from Cons.IH [OF this n]
  show ?case by (simp add: q_def)
qed

lemma foldl_extent_step_attained:
  "fst (foldl extent_step p vs) \<in> insert (fst p) (set vs)
   \<and> snd (foldl extent_step p vs) \<in> insert (snd p) (set vs)"
proof (induction vs arbitrary: p)
  case Nil
  then show ?case by simp
next
  case (Cons x vs)
  have "fst (extent_step p x) \<in> {fst p, x}" "snd (extent_step p x) \<in> {snd p, x}"
    by (simp_all add: extent_step_def)
  then show ?case using Cons.IH [of "extent_step p x"] by auto
qed

lemma heap_update_reads:
  "well_formed (st\<lparr>heap := h\<rparr>) = well_formed st"
  "chunks_ok (st\<lparr>heap := h\<rparr>) dimStore = chunks_ok st dimStore"
  "view_values (st\<lparr>heap := h\<rparr>) dimStore = view_values st dimStore"
  by (simp_all add: well_formed_def chunks_ok_def view_values_def view_def raw_value_def
      split: option.splits)

lemma getDataExtent_raw:
  assumes "storage st d = Some dimStore" and "indices st = None"
    and "rawExtent st d = Some a" and "a < length (heap st)"
  shows "getDataExtent st d
    = Inr (Suc (length (heap st)), st\<lparr>heap := heap st @ [getInitialExtent, heap st ! a]\<rparr>)"
  using assms
  by (simp add: getDataExtent_def new_pair_def dim_store_def array_read_def nth_append)

lemma getDataExtent_cached:
  assumes "storage st d = Some dimStore" and "indices st \<noteq> None"
    and "extent st d = Some a" and "a < length (heap st)"
  shows "getDataExtent st d
    = Inr (Suc (length (heap st)), st\<lparr>heap := heap st @ [getInitialExtent, heap st ! a]\<rparr>)"
proof -
  obtain ind where "indices st = Some ind" using assms(2) by blast
  then show ?thesis
    using assms(1,3,4)
    by (simp add: getDataExtent_def new_pair_def dim_store_def array_read_def nth_append)
qed

lemma getDataExtent_scan:
  assumes wf: "well_formed st" and s: "storage st d = Some dimStore"
    and ok: "chunks_ok st dimStore"
    and "indices st \<noteq> None" and "extent st d = None" and "d \<notin> set proto_keys"
  shows "getDataExtent st d
    = Inr (Suc (length (heap st)),
           st\<lparr>heap := heap st @ [getInitialExtent,
                    foldl extent_step getInitialExtent (view_values st dimStore)],
              extent := (extent st)(d \<mapsto> Suc (length (heap st)))\<rparr>)"
proof -
  define st0 where "st0 = st\<lparr>heap := heap st @ [getInitialExtent]\<rparr>"
  have "well_formed st0" "storage st0 d = Some dimStore" "chunks_ok st0 dimStore"
    using wf s ok by (simp_all add: st0_def heap_update_reads)
  then have "extent_scan st0 d [0..<count st0] getInitialExtent
      = Inr (foldl extent_step getInitialExtent (view_values st0 dimStore))"
    by (rule extent_scan_view)
  then have "extent_scan st0 d [0..<count st] getInitialExtent
      = Inr (foldl extent_step getInitialExtent (view_values st dimStore))"
    by (simp add: st0_def heap_update_reads)
  moreover obtain ind where "indices st = Some ind" using assms(4) by blast
  ultimately show ?thesis
    using assms(2,5,6) unfolding st0_def
    by (simp add: getDataExtent_def new_pair_def dim_store_def)
qed

lemma xy_cached_reached: "getDataExtent xy_filtered ''x'' = Inr (3, xy_cached)"
  by (simp add: getDataExtent_def new_pair_def getInitialExtent_def js_gt_def xy_cached_def
      xy_filtered_def xy_store_def read_defs upt_rec numeral_3_eq_3 numeral_2_eq_2)

lemma nth_two_appended: "(xs @ [x, y]) ! Suc (length xs) = y"
  by (simp add: nth_append)

text \<open>
  C6. For a dimension that has chunk storage on a well-formed store (an extent entry
  holds the address of an allocated pair): with no index array, \<open>getDataExtent\<close> returns
  a pair equal to the raw extent of the dimension; with an index array and a cached
  view extent it returns a new pair equal to the cached one, and after any write to
  the returned pair a further call still returns the cached values; with an index array
  and no cached extent it returns the pair that the scan of the values at the logical
  positions computes from \<open>[Infinity, -Infinity]\<close>, and that very pair is the cache
  entry of the dimension afterwards. The scanned pair bounds every value of the view
  that is not NaN, and each of its ends is a value of the view or the initial one.
  (The scan case is for a name that \<open>Object.prototype\<close> does not provide: ingestion
  creates storage only for such names.)
\<close>

theorem getDataExtent_cases:
  assumes "well_formed st" and "storage st d = Some dimStore" and "chunks_ok st dimStore"
  shows "(\<forall>a. indices st = None \<and> rawExtent st d = Some a \<and> a < length (heap st) \<longrightarrow>
            (\<exists>b st'. getDataExtent st d = Inr (b, st') \<and> heap st' ! b = heap st ! a
               \<and> rawExtent st' = rawExtent st \<and> extent st' = extent st))
    \<and> (\<forall>a. indices st \<noteq> None \<and> extent st d = Some a \<and> a < length (heap st) \<longrightarrow>
            (\<exists>b st'. getDataExtent st d = Inr (b, st') \<and> heap st' ! b = heap st ! a \<and> b \<noteq> a
               \<and> extent st' = extent st
               \<and> (\<forall>p. \<exists>b' st''. getDataExtent (write_pair st' b p) d = Inr (b', st'')
                        \<and> heap st'' ! b' = heap st ! a)))
    \<and> (indices st \<noteq> None \<and> extent st d = None \<and> d \<notin> set proto_keys \<longrightarrow>
            (\<exists>b st'. getDataExtent st d = Inr (b, st')
               \<and> heap st' ! b = foldl extent_step getInitialExtent (view_values st dimStore)
               \<and> extent st' = (extent st)(d \<mapsto> b)
               \<and> (\<forall>v \<in> set (view_values st dimStore). \<not> isNaN v \<longrightarrow>
                     js_le (fst (heap st' ! b)) v \<and> js_le v (snd (heap st' ! b)))
               \<and> fst (heap st' ! b) \<in> insert PosInf (set (view_values st dimStore))
               \<and> snd (heap st' ! b) \<in> insert NegInf (set (view_values st dimStore))))"
proof (intro conjI allI impI)
  fix a
  assume a: "indices st = None \<and> rawExtent st d = Some a \<and> a < length (heap st)"
  define st' where "st' = st\<lparr>heap := heap st @ [getInitialExtent, heap st ! a]\<rparr>"
  have "getDataExtent st d = Inr (Suc (length (heap st)), st')"
    unfolding st'_def using assms(2) a by (intro getDataExtent_raw) simp_all
  moreover have "heap st' ! Suc (length (heap st)) = heap st ! a"
    by (simp add: st'_def nth_two_appended)
  moreover have "rawExtent st' = rawExtent st \<and> extent st' = extent st"
    by (simp add: st'_def)
  ultimately have "getDataExtent st d = Inr (Suc (length (heap st)), st')
      \<and> heap st' ! Suc (length (heap st)) = heap st ! a
      \<and> rawExtent st' = rawExtent st \<and> extent st' = extent st"
    by simp
  then show "\<exists>b st'. getDataExtent st d = Inr (b, st') \<and> heap st' ! b = heap st ! a
      \<and> rawExtent st' = rawExtent st \<and> extent st' = extent st"
    by - (rule exI [of _ "Suc (length (heap st))"], rule exI [of _ st'], assumption)
next
  fix a
  assume a: "indices st \<noteq> None \<and> extent st d = Some a \<and> a < length (heap st)"
  define b where "b = Suc (length (heap st))"
  define st' where "st' = st\<lparr>heap := heap st @ [getInitialExtent, heap st ! a]\<rparr>"
  have run: "getDataExtent st d = Inr (b, st')"
    unfolding st'_def b_def using assms(2) a by (intro getDataExtent_cached) simp_all
  have val: "heap st' ! b = heap st ! a"
    by (simp add: st'_def b_def nth_two_appended)
  have ne: "b \<noteq> a" using a by (simp add: b_def)
  have ext: "extent st' = extent st" by (simp add: st'_def)
  have later: "\<forall>p. \<exists>b' st''. getDataExtent (write_pair st' b p) d = Inr (b', st'')
      \<and> heap st'' ! b' = heap st ! a"
  proof
    fix p
    define stw where "stw = write_pair st' b p"
    have w: "storage stw d = Some dimStore" "indices stw \<noteq> None" "extent stw d = Some a"
      "a < length (heap stw)"
      using assms(2) a by (simp_all add: stw_def write_pair_def st'_def)
    have "heap stw ! a = heap st' ! a"
      using ne by (simp add: stw_def write_pair_def)
    also have "\<dots> = heap st ! a" using a by (simp add: st'_def nth_append)
    finally have same: "heap stw ! a = heap st ! a" .
    define st'' where "st'' = stw\<lparr>heap := heap stw @ [getInitialExtent, heap stw ! a]\<rparr>"
    have "getDataExtent stw d = Inr (Suc (length (heap stw)), st'')"
      unfolding st''_def using w by (rule getDataExtent_cached)
    moreover have "heap st'' ! Suc (length (heap stw)) = heap st ! a"
      by (simp add: st''_def nth_two_appended same)
    ultimately have "getDataExtent (write_pair st' b p) d = Inr (Suc (length (heap stw)), st'')
        \<and> heap st'' ! Suc (length (heap stw)) = heap st ! a"
      unfolding stw_def by simp
    then show "\<exists>b' st''. getDataExtent (write_pair st' b p) d = Inr (b', st'')
        \<and> heap st'' ! b' = heap st ! a"
      by - (rule exI [of _ "Suc (length (heap stw))"], rule exI [of _ st''], assumption)
  qed
  show "\<exists>b st'. getDataExtent st d = Inr (b, st') \<and> heap st' ! b = heap st ! a \<and> b \<noteq> a
      \<and> extent st' = extent st
      \<and> (\<forall>p. \<exists>b' st''. getDataExtent (write_pair st' b p) d = Inr (b', st'')
               \<and> heap st'' ! b' = heap st ! a)"
  proof (rule exI [of _ b], rule exI [of _ st'], intro conjI)
    show "getDataExtent st d = Inr (b, st')" by (rule run)
    show "heap st' ! b = heap st ! a" by (rule val)
    show "b \<noteq> a" by (rule ne)
    show "extent st' = extent st" by (rule ext)
    show "\<forall>p. \<exists>b' st''. getDataExtent (write_pair st' b p) d = Inr (b', st'')
               \<and> heap st'' ! b' = heap st ! a"
      by (rule later)
  qed
next
  assume a: "indices st \<noteq> None \<and> extent st d = None \<and> d \<notin> set proto_keys"
  define vs where "vs = view_values st dimStore"
  define res where "res = foldl extent_step getInitialExtent vs"
  define b where "b = Suc (length (heap st))"
  define st' where "st' = st\<lparr>heap := heap st @ [getInitialExtent, res],
      extent := (extent st)(d \<mapsto> b)\<rparr>"
  have run: "getDataExtent st d = Inr (b, st')"
    unfolding st'_def b_def res_def vs_def using assms a by (intro getDataExtent_scan) simp_all
  have val: "heap st' ! b = res"
    by (simp add: st'_def b_def nth_two_appended)
  have ext: "extent st' = (extent st)(d \<mapsto> b)" by (simp add: st'_def)
  have "\<forall>v \<in> set ([] @ vs). \<not> isNaN v \<longrightarrow>
      js_le (fst (foldl extent_step getInitialExtent vs)) v
      \<and> js_le v (snd (foldl extent_step getInitialExtent vs))"
    by (rule foldl_extent_step_bounds) (simp_all add: getInitialExtent_def)
  then have bounds: "\<forall>v \<in> set vs. \<not> isNaN v \<longrightarrow> js_le (fst res) v \<and> js_le v (snd res)"
    by (simp add: res_def)
  have ends: "fst res \<in> insert PosInf (set vs) \<and> snd res \<in> insert NegInf (set vs)"
    using foldl_extent_step_attained [of getInitialExtent vs]
    by (simp add: res_def getInitialExtent_def)
  show "\<exists>b st'. getDataExtent st d = Inr (b, st')
      \<and> heap st' ! b = foldl extent_step getInitialExtent (view_values st dimStore)
      \<and> extent st' = (extent st)(d \<mapsto> b)
      \<and> (\<forall>v \<in> set (view_values st dimStore). \<not> isNaN v \<longrightarrow>
            js_le (fst (heap st' ! b)) v \<and> js_le v (snd (heap st' ! b)))
      \<and> fst (heap st' ! b) \<in> insert PosInf (set (view_values st dimStore))
      \<and> snd (heap st' ! b) \<in> insert NegInf (set (view_values st dimStore))"
    unfolding vs_def [symmetric]
  proof (rule exI [of _ b], rule exI [of _ st'], intro conjI)
    show "getDataExtent st d = Inr (b, st')" by (rule run)
    show "heap st' ! b = foldl extent_step getInitialExtent vs"
      using val by (simp add: res_def)
    show "extent st' = (extent st)(d \<mapsto> b)" by (rule ext)
    show "\<forall>v \<in> set vs. \<not> isNaN v \<longrightarrow>
        js_le (fst (heap st' ! b)) v \<and> js_le v (snd (heap st' ! b))"
      unfolding val by (rule bounds)
    show "fst (heap st' ! b) \<in> insert PosInf (set vs)"
      unfolding val using ends by simp
    show "snd (heap st' ! b) \<in> insert NegInf (set vs)"
      unfolding val using ends by simp
  qed
qed

theorem getDataExtent_cases_witness:
  "(\<exists>b st'. getDataExtent xy_store ''x'' = Inr (b, st') \<and> heap st' ! b = (Fin 1, Fin 3))
   \<and> (\<exists>b st'. getDataExtent xy_cached ''x'' = Inr (b, st') \<and> heap st' ! b = (Fin 1, Fin 3)
         \<and> b \<noteq> 3
         \<and> (\<exists>b' st''. getDataExtent (write_pair st' b (Fin 0, Fin 0)) ''x'' = Inr (b', st'')
               \<and> heap st'' ! b' = (Fin 1, Fin 3)))
   \<and> (\<exists>b st'. getDataExtent xy_filtered ''y'' = Inr (b, st')
         \<and> heap st' ! b = (Fin 10, Fin 30) \<and> extent st' ''y'' = Some b)"
proof -
  have wf1: "well_formed xy_store" by (simp add: well_formed_def xy_store_def)
  have s1: "storage xy_store ''x'' = Some [[Fin 1, Fin 2, Fin 3]]" by (simp add: xy_store_def)
  have ok1: "chunks_ok xy_store [[Fin 1, Fin 2, Fin 3]]"
    by (simp add: chunks_ok_def xy_store_def upt_rec)
  have pre1: "indices xy_store = None \<and> rawExtent xy_store ''x'' = Some 0
      \<and> 0 < length (heap xy_store)"
    by (simp add: xy_store_def)
  have h1: "heap xy_store ! 0 = (Fin 1, Fin 3)" by (simp add: xy_store_def)
  have "\<exists>b st'. getDataExtent xy_store ''x'' = Inr (b, st')
      \<and> heap st' ! b = heap xy_store ! 0
      \<and> rawExtent st' = rawExtent xy_store \<and> extent st' = extent xy_store"
    using getDataExtent_cases [OF wf1 s1 ok1] pre1 by simp
  then have 1: "\<exists>b st'. getDataExtent xy_store ''x'' = Inr (b, st')
      \<and> heap st' ! b = (Fin 1, Fin 3)"
    unfolding h1 by auto
  have wf2: "well_formed xy_cached"
    by (simp add: well_formed_def xy_cached_def xy_filtered_def xy_store_def upt_rec)
  have s2: "storage xy_cached ''x'' = Some [[Fin 1, Fin 2, Fin 3]]"
    by (simp add: xy_cached_def xy_filtered_def xy_store_def)
  have ok2: "chunks_ok xy_cached [[Fin 1, Fin 2, Fin 3]]"
    by (simp add: chunks_ok_def xy_cached_def xy_filtered_def xy_store_def upt_rec)
  have pre2: "indices xy_cached \<noteq> None \<and> extent xy_cached ''x'' = Some 3
      \<and> 3 < length (heap xy_cached)"
    by (simp add: xy_cached_def xy_filtered_def xy_store_def)
  have h2: "heap xy_cached ! 3 = (Fin 1, Fin 3)" by (simp add: xy_cached_def)
  have "\<exists>b st'. getDataExtent xy_cached ''x'' = Inr (b, st')
      \<and> heap st' ! b = heap xy_cached ! 3 \<and> b \<noteq> 3 \<and> extent st' = extent xy_cached
      \<and> (\<forall>p. \<exists>b' st''. getDataExtent (write_pair st' b p) ''x'' = Inr (b', st'')
               \<and> heap st'' ! b' = heap xy_cached ! 3)"
    using getDataExtent_cases [OF wf2 s2 ok2] pre2 by simp
  then obtain b st' where r2: "getDataExtent xy_cached ''x'' = Inr (b, st')"
    and v2: "heap st' ! b = (Fin 1, Fin 3)" and n2: "b \<noteq> 3"
    and l2: "\<forall>p. \<exists>b' st''. getDataExtent (write_pair st' b p) ''x'' = Inr (b', st'')
               \<and> heap st'' ! b' = (Fin 1, Fin 3)"
    unfolding h2 by auto
  have "\<exists>b' st''. getDataExtent (write_pair st' b (Fin 0, Fin 0)) ''x'' = Inr (b', st'')
      \<and> heap st'' ! b' = (Fin 1, Fin 3)"
    using l2 by (rule spec)
  then have "getDataExtent xy_cached ''x'' = Inr (b, st') \<and> heap st' ! b = (Fin 1, Fin 3)
      \<and> b \<noteq> 3
      \<and> (\<exists>b' st''. getDataExtent (write_pair st' b (Fin 0, Fin 0)) ''x'' = Inr (b', st'')
            \<and> heap st'' ! b' = (Fin 1, Fin 3))"
    using r2 v2 n2 by simp
  then have 2: "\<exists>b st'. getDataExtent xy_cached ''x'' = Inr (b, st')
      \<and> heap st' ! b = (Fin 1, Fin 3) \<and> b \<noteq> 3
      \<and> (\<exists>b' st''. getDataExtent (write_pair st' b (Fin 0, Fin 0)) ''x'' = Inr (b', st'')
            \<and> heap st'' ! b' = (Fin 1, Fin 3))"
    by - (rule exI [of _ b], rule exI [of _ st'], assumption)
  have wf3: "well_formed xy_filtered"
    by (simp add: well_formed_def xy_filtered_def xy_store_def upt_rec)
  have s3: "storage xy_filtered ''y'' = Some [[Fin 10, NaN, Fin 30]]"
    by (simp add: xy_filtered_def xy_store_def)
  have ok3: "chunks_ok xy_filtered [[Fin 10, NaN, Fin 30]]"
    by (simp add: chunks_ok_def xy_filtered_def xy_store_def upt_rec)
  have pre3: "indices xy_filtered \<noteq> None \<and> extent xy_filtered ''y'' = None
      \<and> ''y'' \<notin> set proto_keys"
    by (simp add: xy_filtered_def xy_store_def proto_keys_def inherited_keys_def)
  have scan: "foldl extent_step getInitialExtent
      (view_values xy_filtered [[Fin 10, NaN, Fin 30]]) = (Fin 10, Fin 30)"
    by (simp add: view_values_def view_def raw_value_def chunk_read_def extent_step_def
        getInitialExtent_def js_gt_def xy_filtered_def xy_store_def)
  have "\<exists>b st'. getDataExtent xy_filtered ''y'' = Inr (b, st')
      \<and> heap st' ! b = foldl extent_step getInitialExtent
           (view_values xy_filtered [[Fin 10, NaN, Fin 30]])
      \<and> extent st' = (extent xy_filtered)(''y'' \<mapsto> b)"
    using getDataExtent_cases [OF wf3 s3 ok3] pre3 by auto
  then have 3: "\<exists>b st'. getDataExtent xy_filtered ''y'' = Inr (b, st')
      \<and> heap st' ! b = (Fin 10, Fin 30) \<and> extent st' ''y'' = Some b"
    unfolding scan by auto
  show ?thesis using 1 2 3 by simp
qed

section \<open>Ids given at ingestion\<close>


















end
